theory Spec2Isabelle
  imports Complex_Main "HOL-Library.Sublist"
begin

section \<open>Python strings\<close>

text \<open>
  A Python \<open>str\<close> is a sequence of Unicode code points; it is modelled as a list of
  natural numbers, one per code point. The model is about well-formed text: code points
  are Unicode scalar values (no lone surrogates). \<open>lit\<close> turns an ASCII literal of
  the theory into such a string.
\<close>

type_synonym pystr = "nat list"

definition lit :: "string \<Rightarrow> pystr" where
  "lit cs = map of_char cs"

text \<open>The exceptions the modelled code can raise.\<close>

datatype exn = ValueError | IndexError | EmptyDataError | ParserError | AttributeError

text \<open>
  \<open>str.splitlines()\<close>: the text is cut at every line boundary (LF, VT, FF, CR, FS, GS,
  RS, NEL, LS, PS; CR LF counts as one boundary), the boundaries are dropped, and a
  boundary at the very end opens no further line.
\<close>

definition is_linebreak :: "nat \<Rightarrow> bool" where
  "is_linebreak c = (c = 10 \<or> c = 11 \<or> c = 12 \<or> c = 13 \<or> c = 28 \<or> c = 29 \<or> c = 30
     \<or> c = 133 \<or> c = 8232 \<or> c = 8233)"

fun splitlines_from :: "pystr \<Rightarrow> pystr \<Rightarrow> pystr list" where
  "splitlines_from cur [] = (if cur = [] then [] else [cur])"
| "splitlines_from cur [c] =
     (if is_linebreak c then [cur] else [cur @ [c]])"
| "splitlines_from cur (c # d # cs) =
     (if c = 13 \<and> d = 10 then cur # splitlines_from [] cs
      else if is_linebreak c then cur # splitlines_from [] (d # cs)
      else splitlines_from (cur @ [c]) (d # cs))"

definition splitlines :: "pystr \<Rightarrow> pystr list" where
  "splitlines s = splitlines_from [] s"

text \<open>
  \<open>str.strip()\<close> without argument removes leading and trailing white space, which for
  a \<open>str\<close> is every code point Python's \<open>str.isspace\<close> accepts.
\<close>

definition is_space :: "nat \<Rightarrow> bool" where
  "is_space c = ((9 \<le> c \<and> c \<le> 13) \<or> (28 \<le> c \<and> c \<le> 32) \<or> c = 133 \<or> c = 160
     \<or> c = 5760 \<or> (8192 \<le> c \<and> c \<le> 8202) \<or> c = 8232 \<or> c = 8233 \<or> c = 8239
     \<or> c = 8287 \<or> c = 12288)"

definition py_strip :: "pystr \<Rightarrow> pystr" where
  "py_strip s = rev (dropWhile is_space (rev (dropWhile is_space s)))"

text \<open>\<open>s.replace(c, new)\<close> for a one-character \<open>c\<close>: every occurrence is replaced.\<close>

definition replace_char :: "nat \<Rightarrow> pystr \<Rightarrow> pystr \<Rightarrow> pystr" where
  "replace_char c new s = concat (map (\<lambda>x. if x = c then new else [x]) s)"

text \<open>\<open>sep.join(parts)\<close>.\<close>

fun py_join :: "pystr \<Rightarrow> pystr list \<Rightarrow> pystr" where
  "py_join sep [] = []"
| "py_join sep [x] = x"
| "py_join sep (x # y # ys) = x @ sep @ py_join sep (y # ys)"

text \<open>
  The leftmost occurrence of \<open>sub\<close> in \<open>s\<close>: the text before it and the text after it.
  It decides \<open>sub in s\<close> and drives \<open>s.split(sub)\<close>.
\<close>

fun split_first :: "pystr \<Rightarrow> pystr \<Rightarrow> (pystr \<times> pystr) option" where
  "split_first sub [] = (if sub = [] then Some ([], []) else None)"
| "split_first sub (c # cs) =
     (if prefix sub (c # cs) then Some ([], drop (length sub) (c # cs))
      else map_option (\<lambda>(b, a). (c # b, a)) (split_first sub cs))"

definition str_in :: "pystr \<Rightarrow> pystr \<Rightarrow> bool" where
  "str_in sub s = (split_first sub s \<noteq> None)"

lemma split_first_shorter:
  "split_first sub s = Some (b, a) \<Longrightarrow> length a + length sub \<le> length s"
proof (induction s arbitrary: b)
  case Nil
  then show ?case by (simp split: if_splits)
next
  case (Cons c cs)
  show ?case
  proof (cases rule: bool.exhaust[of "prefix sub (c # cs)"])
    case True
    then have "length sub \<le> length (c # cs)"
      using prefix_length_le[of sub "c # cs"] by simp
    with True Cons.prems show ?thesis by auto
  next
    case False
    with Cons.prems obtain b' where "split_first sub cs = Some (b', a)"
      by (auto split: prod.splits)
    from Cons.IH[OF this] show ?thesis by simp
  qed
qed

text \<open>
  \<open>s.split(sep)\<close> with an explicit separator: non-overlapping occurrences from the
  left; an empty separator raises \<open>ValueError\<close>.
\<close>

function split_loop :: "pystr \<Rightarrow> pystr \<Rightarrow> pystr list" where
  "split_loop sep s =
     (if sep = [] then [s]
      else (case split_first sep s of
              None \<Rightarrow> [s]
            | Some (b, a) \<Rightarrow> b # split_loop sep a))"
  by pat_completeness auto
termination
proof (relation "measure (\<lambda>(sep, s). length s)")
  show "wf (measure (\<lambda>(sep, s). length s))" by simp
next
  fix sep s :: pystr and x2 :: "pystr \<times> pystr" and b a :: pystr
  assume "sep \<noteq> []" and "split_first sep s = Some x2" and "(b, a) = x2"
  then have "split_first sep s = Some (b, a)" by simp
  from split_first_shorter[OF this] \<open>sep \<noteq> []\<close>
  show "((sep, a), (sep, s)) \<in> measure (\<lambda>(sep, s). length s)"
    by (cases sep) auto
qed

declare split_loop.simps [simp del]

definition py_split :: "pystr \<Rightarrow> pystr \<Rightarrow> exn + pystr list" where
  "py_split sep s = (if sep = [] then Inl ValueError else Inr (split_loop sep s))"

text \<open>\<open>xs[i]\<close> for a non-negative \<open>i\<close>: \<open>IndexError\<close> out of range.\<close>

definition py_index :: "'a list \<Rightarrow> nat \<Rightarrow> exn + 'a" where
  "py_index xs i = (if i < length xs then Inr (xs ! i) else Inl IndexError)"

section \<open>Extraction of the table block\<close>

text \<open>
  The loop of \<open>extract_markdown_table\<close>: \<open>in_table\<close> and \<open>table_lines\<close> are the
  loop's two variables, the third argument the lines still to visit. A line with a
  pipe is appended; a blank line after the first such line ends the loop; any other
  line is passed over.
\<close>

fun scan_lines :: "bool \<Rightarrow> pystr list \<Rightarrow> pystr list \<Rightarrow> pystr list" where
  "scan_lines in_table table_lines [] = table_lines"
| "scan_lines in_table table_lines (line # lines) =
     (if str_in [124] line then scan_lines True (table_lines @ [line]) lines
      else if in_table \<and> py_strip line = [] then table_lines
      else scan_lines in_table table_lines lines)"

definition extract_markdown_table :: "pystr \<Rightarrow> exn + (pystr option \<times> pystr)" where
  "extract_markdown_table answer =
     (let table_lines = scan_lines False [] (splitlines answer) in
      if table_lines = [] then Inr (None, answer)
      else
        let table_md = py_join [10] table_lines in
        (case py_split table_md answer of
           Inl e \<Rightarrow> Inl e
         | Inr parts \<Rightarrow>
           (case py_index parts 0 of
              Inl e \<Rightarrow> Inl e
            | Inr p0 \<Rightarrow>
              (case (if str_in table_md answer
                     then (case py_split table_md answer of
                             Inl e \<Rightarrow> Inl e
                           | Inr parts' \<Rightarrow>
                             (case py_index parts' 1 of
                                Inl e \<Rightarrow> Inl e
                              | Inr p1 \<Rightarrow> Inr (py_strip p1)))
                     else Inr [])
               of Inl e \<Rightarrow> Inl e
                | Inr post \<Rightarrow> Inr (Some table_md, py_strip p0 @ [10, 10] @ post)))))"

section \<open>Normalization: the decorative rows\<close>

text \<open>
  The filter at the head of \<open>parse_portfolio_table\<close>: a line is dropped when the set of
  its characters, once pipes and spaces (U+0020 only) are removed, is a subset of
  \<open>{'-'}\<close>.
\<close>

definition is_decorative :: "pystr \<Rightarrow> bool" where
  "is_decorative line = (set (replace_char 32 [] (replace_char 124 [] line)) \<subseteq> {45})"

definition clean_lines :: "pystr list \<Rightarrow> pystr list" where
  "clean_lines lines = filter (\<lambda>line. \<not> is_decorative line) lines"

section \<open>The CSV reader\<close>

text \<open>
  \<open>parse_portfolio_table\<close> hands the cleaned block to
  \<open>pandas.read_csv(buffer, sep="|", skipinitialspace=True)\<close>. The library is not part of
  the repository; what follows models the behaviour of its C tokenizer and header
  handling that this call exercises, with the defaults the call leaves in place: quote
  character \<open>"\<close> with doubled quotes, no escape and no comment character, blank lines
  skipped, first record taken as the header.

  The tokenizer is a state machine over the characters. The text it receives here was
  joined with LF from lines that hold no line boundary, so LF is the only record
  terminator that can occur, and carriage returns need no state. A line that starts with
  blanks and holds nothing else is skipped; otherwise the reader backs up to the start of
  the line, which the model does by remembering the field those blanks would have begun.
\<close>

datatype tstate = START_RECORD | WHITESPACE_LINE | START_FIELD | IN_FIELD
  | IN_QUOTED_FIELD | QUOTE_IN_QUOTED_FIELD

text \<open>
  The tokenizer's variables: its state, the characters of the field being read, the
  fields finished on the current record, and the finished records.
\<close>

datatype tok = Tok tstate pystr "pystr list" "pystr list list"

definition start_field :: "pystr list \<Rightarrow> pystr list list \<Rightarrow> nat \<Rightarrow> tok" where
  "start_field fs rs c =
     (if c = 10 then Tok START_RECORD [] [] (rs @ [fs @ [[]]])
      else if c = 34 then Tok IN_QUOTED_FIELD [] fs rs
      else if c = 32 then Tok START_FIELD [] fs rs
      else if c = 124 then Tok START_FIELD [] (fs @ [[]]) rs
      else Tok IN_FIELD [c] fs rs)"

definition in_field :: "pystr \<Rightarrow> pystr list \<Rightarrow> pystr list list \<Rightarrow> nat \<Rightarrow> tok" where
  "in_field f fs rs c =
     (if c = 10 then Tok START_RECORD [] [] (rs @ [fs @ [f]])
      else if c = 124 then Tok START_FIELD [] (fs @ [f]) rs
      else Tok IN_FIELD (f @ [c]) fs rs)"

fun step :: "tok \<Rightarrow> nat \<Rightarrow> tok" where
  "step (Tok START_RECORD f fs rs) c =
     (if c = 10 then Tok START_RECORD [] [] rs
      else if c = 32 then Tok WHITESPACE_LINE [] [] rs
      else if c = 9 then Tok WHITESPACE_LINE [9] [] rs
      else start_field [] rs c)"
| "step (Tok WHITESPACE_LINE f fs rs) c =
     (if c = 10 then Tok START_RECORD [] [] rs
      else if c = 32 \<or> c = 9
        then Tok WHITESPACE_LINE (if f = [] \<and> c = 32 then [] else f @ [c]) [] rs
      else if f = [] then start_field [] rs c
      else in_field f [] rs c)"
| "step (Tok START_FIELD f fs rs) c = start_field fs rs c"
| "step (Tok IN_FIELD f fs rs) c = in_field f fs rs c"
| "step (Tok IN_QUOTED_FIELD f fs rs) c =
     (if c = 34 then Tok QUOTE_IN_QUOTED_FIELD f fs rs
      else Tok IN_QUOTED_FIELD (f @ [c]) fs rs)"
| "step (Tok QUOTE_IN_QUOTED_FIELD f fs rs) c =
     (if c = 34 then Tok IN_QUOTED_FIELD (f @ [34]) fs rs
      else if c = 124 then Tok START_FIELD [] (fs @ [f]) rs
      else if c = 10 then Tok START_RECORD [] [] (rs @ [fs @ [f]])
      else Tok IN_FIELD (f @ [c]) fs rs)"

text \<open>
  At the end of the input an open field closes its record, a quoted field still open is
  an error (\<open>EOF inside string\<close>), and nothing is pending at the start of a record.
\<close>

fun handle_eof :: "tok \<Rightarrow> exn + pystr list list" where
  "handle_eof (Tok START_RECORD f fs rs) = Inr rs"
| "handle_eof (Tok WHITESPACE_LINE f fs rs) = Inr rs"
| "handle_eof (Tok IN_QUOTED_FIELD f fs rs) = Inl ParserError"
| "handle_eof (Tok START_FIELD f fs rs) = Inr (rs @ [fs @ [f]])"
| "handle_eof (Tok IN_FIELD f fs rs) = Inr (rs @ [fs @ [f]])"
| "handle_eof (Tok QUOTE_IN_QUOTED_FIELD f fs rs) = Inr (rs @ [fs @ [f]])"

text \<open>The finished records of a tokenizer state.\<close>

fun recs_of :: "tok \<Rightarrow> pystr list list" where
  "recs_of (Tok st f fs rs) = rs"

definition tokenize :: "pystr \<Rightarrow> exn + pystr list list" where
  "tokenize text = handle_eof (foldl step (Tok START_RECORD [] [] []) text)"

text \<open>
  A data frame: the column names and the rows, each row with one cell per column. A cell
  is the text the reader took from the file, or a number once the column was coerced.
  Numbers are the values of \<open>float64\<close>: a finite value, written as the exact rational
  the text denotes (rounding to binary and overflow are outside the model), an infinity,
  or NaN, pandas' missing value.
\<close>

datatype pyfloat = Fin rat | PosInf | NegInf | NaN

datatype cell = Text pystr | Number pyfloat

record dataframe =
  df_columns :: "pystr list"
  df_rows :: "cell list list"

text \<open>An empty header field is named \<open>Unnamed: i\<close> after its position.\<close>

fun decimal :: "nat \<Rightarrow> pystr" where
  "decimal n = (if n < 10 then [48 + n] else decimal (n div 10) @ [48 + n mod 10])"

declare decimal.simps [simp del]

definition header_names :: "pystr list \<Rightarrow> pystr list" where
  "header_names hdr =
     map (\<lambda>(i, name). if name = [] then lit ''Unnamed: '' @ decimal i else name)
       (enumerate 0 hdr)"

text \<open>
  Repeated names are renamed (\<open>X\<close>, \<open>X.1\<close>, ...) by a scheme that differs between
  versions of the library; \<open>mangle\<close> stands for it: \<open>mangle names i\<close> is the new name
  of the column at position \<open>i\<close>. Names that are already distinct are kept.
\<close>

definition dedup_names :: "(pystr list \<Rightarrow> nat \<Rightarrow> pystr) \<Rightarrow> pystr list \<Rightarrow> pystr list" where
  "dedup_names mangle names =
     (if distinct names then names else map (mangle names) [0..<length names])"

text \<open>
  The frame: no record at all is \<open>EmptyDataError\<close>. The first data record fixes the
  width: where it is longer than the header its leading fields become the index and are
  no columns. A later record with more fields than that is a \<open>ParserError\<close>; a shorter
  one is filled with empty fields.
\<close>

definition read_csv :: "(pystr list \<Rightarrow> nat \<Rightarrow> pystr) \<Rightarrow> pystr \<Rightarrow> exn + dataframe" where
  "read_csv mangle text =
     (case tokenize text of
        Inl e \<Rightarrow> Inl e
      | Inr recs \<Rightarrow>
        (case recs of
           [] \<Rightarrow> Inl EmptyDataError
         | hdr # data \<Rightarrow>
           (let k = length hdr;
                w = (case data of [] \<Rightarrow> k | r # _ \<Rightarrow> max k (length r))
            in if list_ex (\<lambda>r. w < length r) (tl data) then Inl ParserError
               else Inr \<lparr>df_columns = dedup_names mangle (header_names hdr),
                         df_rows = map (\<lambda>r. map Text (drop (w - k) (r @ replicate (w - length r) [])))
                                     data\<rparr>)))"

section \<open>Numeric coercion\<close>

text \<open>
  \<open>pandas.to_numeric(..., errors='coerce')\<close> on a string: optional blanks, an optional
  sign, digits with an optional fraction (at least one digit in all), an optional
  exponent, optional blanks. Failing that, the words \<open>inf\<close> and \<open>infinity\<close>, with an
  optional sign and in any case, are the infinities. Anything else is coerced to NaN.

  The value of a number is the rational its digits denote. The library computes in
  \<open>float64\<close>: it rounds, and it reports text beyond the range of \<open>float64\<close> (a
  number of some hundred digits, \<open>1e400\<close>) as an error, which the coercion turns into
  NaN. Neither is modelled, so a statement that a cell becomes a given finite number is
  made only for text of at most fifteen digits, which \<open>float64\<close> reads exactly.
\<close>

definition is_digit :: "nat \<Rightarrow> bool" where
  "is_digit c = (48 \<le> c \<and> c \<le> 57)"

definition isspace_ascii :: "nat \<Rightarrow> bool" where
  "isspace_ascii c = (c = 32 \<or> (9 \<le> c \<and> c \<le> 13))"

definition digits_value :: "pystr \<Rightarrow> nat" where
  "digits_value ds = foldl (\<lambda>a d. 10 * a + (d - 48)) 0 ds"

definition pow10 :: "int \<Rightarrow> rat" where
  "pow10 z = (if 0 \<le> z then 10 ^ nat z else 1 / 10 ^ nat (- z))"

text \<open>The sign in front of a number: whether it is negative, and the text after it.\<close>

fun take_sign :: "pystr \<Rightarrow> bool \<times> pystr" where
  "take_sign [] = (False, [])"
| "take_sign (c # cs) =
     (if c = 45 then (True, cs) else if c = 43 then (False, cs) else (False, c # cs))"

text \<open>
  An exponent: \<open>e\<close> or \<open>E\<close>, an optional sign, digits. Without digits the \<open>e\<close> is not
  consumed.
\<close>

fun take_exponent :: "pystr \<Rightarrow> int \<times> pystr" where
  "take_exponent [] = (0, [])"
| "take_exponent (c # cs) =
     (if c = 101 \<or> c = 69 then
        (let (neg, r) = take_sign cs; ds = takeWhile is_digit r in
         if ds = [] then (0, c # cs)
         else ((if neg then - int (digits_value ds) else int (digits_value ds)),
               dropWhile is_digit r))
      else (0, c # cs))"

fun take_fraction :: "pystr \<Rightarrow> pystr \<times> pystr" where
  "take_fraction [] = ([], [])"
| "take_fraction (c # cs) =
     (if c = 46 then (takeWhile is_digit cs, dropWhile is_digit cs) else ([], c # cs))"

definition parse_decimal :: "pystr \<Rightarrow> rat option" where
  "parse_decimal s =
     (let (neg, s2) = take_sign (dropWhile isspace_ascii s);
          ip = takeWhile is_digit s2;
          (fp, s4) = take_fraction (dropWhile is_digit s2)
      in if ip = [] \<and> fp = [] then None
         else
           (let (ex, s5) = take_exponent s4 in
            if dropWhile isspace_ascii s5 = []
            then Some ((if neg then - 1 else 1) * of_nat (digits_value (ip @ fp))
                         * pow10 (ex - int (length fp)))
            else None))"

definition ascii_lower :: "nat \<Rightarrow> nat" where
  "ascii_lower c = (if 65 \<le> c \<and> c \<le> 90 then c + 32 else c)"

definition to_numeric :: "pystr \<Rightarrow> pyfloat" where
  "to_numeric s =
     (case parse_decimal s of
        Some q \<Rightarrow> Fin q
      | None \<Rightarrow>
        (let t = map ascii_lower s in
         if t = lit ''inf'' \<or> t = lit ''+inf'' \<or> t = lit ''infinity'' \<or> t = lit ''+infinity''
           then PosInf
         else if t = lit ''-inf'' \<or> t = lit ''-infinity'' then NegInf
         else NaN))"

section \<open>Normalization\<close>

text \<open>
  \<open>str.lower()\<close>: on ASCII text the letters A to Z are mapped to a to z. For text with
  other code points Python follows the Unicode case tables, which are no part of the
  repository: \<open>ulower\<close> stands for \<open>str.lower\<close> on such text.
\<close>

definition py_lower :: "(pystr \<Rightarrow> pystr) \<Rightarrow> pystr \<Rightarrow> pystr" where
  "py_lower ulower s = (if list_all (\<lambda>c. c < 128) s then map ascii_lower s else ulower s)"

text \<open>The keywords \<open>weight\<close>, \<open>U+BE44 U+C911\<close> (the Korean word for weight) and \<open>ratio\<close>.\<close>

definition weight_keywords :: "pystr list" where
  "weight_keywords = [lit ''weight'', [48708, 51473], lit ''ratio'']"

definition is_weight_name :: "(pystr \<Rightarrow> pystr) \<Rightarrow> pystr \<Rightarrow> bool" where
  "is_weight_name ulower c = list_ex (\<lambda>keyword. str_in keyword (py_lower ulower c)) weight_keywords"

text \<open>Selection of the entries of a row under a Boolean mask (\<open>df.loc[:, mask]\<close>).\<close>

definition select :: "bool list \<Rightarrow> 'a list \<Rightarrow> 'a list" where
  "select keep xs = map snd (filter fst (zip keep xs))"

fun apply_at :: "nat \<Rightarrow> ('a \<Rightarrow> 'a) \<Rightarrow> 'a list \<Rightarrow> 'a list" where
  "apply_at n f [] = []"
| "apply_at 0 f (x # xs) = f x # xs"
| "apply_at (Suc n) f (x # xs) = x # apply_at n f xs"

text \<open>
  The weight column is turned into strings, percent signs and commas are removed, and
  the result is coerced. \<open>astype(str)\<close> is modelled on the text of the cell. The reader
  may already have typed the column as numbers or turned a missing-value word into NaN,
  but the string \<open>astype(str)\<close> then yields is again coerced to that number, or to NaN.
\<close>

fun coerce_cell :: "cell \<Rightarrow> cell" where
  "coerce_cell (Text s) = Number (to_numeric (replace_char 44 [] (replace_char 37 [] s)))"
| "coerce_cell (Number v) = Number v"

text \<open>\<open>dropna(subset=[weight_col])\<close>: the rows whose weight is NaN go.\<close>

fun weight_missing :: "nat \<Rightarrow> cell list \<Rightarrow> bool" where
  "weight_missing j row = (j < length row \<and> row ! j = Number NaN)"

text \<open>
  The steps of the \<open>try\<close> block, in the order of the source. First the block is
  stripped, cut into lines, freed of its decorative rows and joined again.
\<close>

definition clean_table_md :: "pystr \<Rightarrow> pystr" where
  "clean_table_md table_md = py_join [10] (clean_lines (splitlines (py_strip table_md)))"

text \<open>
  Then the columns whose name starts with \<open>Unnamed\<close> are dropped
  (\<open>str.contains('^Unnamed')\<close>) and the remaining names are stripped.
\<close>

definition drop_unnamed :: "dataframe \<Rightarrow> dataframe" where
  "drop_unnamed df =
     (let keep = map (\<lambda>c. \<not> prefix (lit ''Unnamed'') c) (df_columns df)
      in \<lparr>df_columns = map py_strip (select keep (df_columns df)),
          df_rows = map (select keep) (df_rows df)\<rparr>)"

text \<open>
  The weight column is the first one whose lower-cased name contains a keyword; its
  position is what \<open>df[weight_col]\<close> addresses when the name is unique.
\<close>

definition weight_index :: "(pystr \<Rightarrow> pystr) \<Rightarrow> pystr list \<Rightarrow> nat" where
  "weight_index ulower cols = length (takeWhile (\<lambda>c. \<not> is_weight_name ulower c) cols)"

text \<open>
  Last the weight column is coerced and the rows without a weight are dropped. A name
  that occurs twice among the stripped column names selects a frame, not a column, and
  the \<open>.str\<close> accessor then raises \<open>AttributeError\<close>.
\<close>

definition normalize_weights :: "(pystr \<Rightarrow> pystr) \<Rightarrow> dataframe \<Rightarrow> exn + dataframe option" where
  "normalize_weights ulower df =
     (case find (is_weight_name ulower) (df_columns df) of
        None \<Rightarrow> Inr None
      | Some weight_col \<Rightarrow>
        if weight_col = [] then Inr None
        else if count_list (df_columns df) weight_col \<noteq> 1 then Inl AttributeError
        else Inr (Some \<lparr>df_columns = df_columns df,
                        df_rows = filter (\<lambda>row. \<not> weight_missing (weight_index ulower (df_columns df)) row)
                                    (map (apply_at (weight_index ulower (df_columns df)) coerce_cell)
                                       (df_rows df))\<rparr>))"

definition parse_body ::
  "(pystr \<Rightarrow> pystr) \<Rightarrow> (pystr list \<Rightarrow> nat \<Rightarrow> pystr) \<Rightarrow> pystr \<Rightarrow> exn + dataframe option" where
  "parse_body ulower mangle table_md =
     (case read_csv mangle (clean_table_md table_md) of
        Inl e \<Rightarrow> Inl e
      | Inr df \<Rightarrow> normalize_weights ulower (drop_unnamed df))"

text \<open>
  \<open>parse_portfolio_table\<close>: any exception of the body is caught, reported on the page
  (\<open>st.error\<close>, an effect on the user interface that is not modelled) and turned into
  \<open>None\<close>.
\<close>

definition parse_portfolio_table ::
  "(pystr \<Rightarrow> pystr) \<Rightarrow> (pystr list \<Rightarrow> nat \<Rightarrow> pystr) \<Rightarrow> pystr \<Rightarrow> exn + dataframe option" where
  "parse_portfolio_table ulower mangle table_md =
     (case parse_body ulower mangle table_md of
        Inl e \<Rightarrow> Inr None
      | Inr r \<Rightarrow> Inr r)"

text \<open>The designated weight column of a frame: the weight cell of every row.\<close>

definition weight_column :: "(pystr \<Rightarrow> pystr) \<Rightarrow> dataframe \<Rightarrow> cell list" where
  "weight_column ulower df = map (\<lambda>row. row ! weight_index ulower (df_columns df)) (df_rows df)"

section \<open>Markdown tables\<close>

text \<open>
  The claims about normalization speak of table blocks, well-formed tables and clean
  percentages. This section fixes what these are.
\<close>

text \<open>
  A row of a markdown table as the model writes it (and as the scenario of the
  specification shows it): a pipe, then every cell between two spaces and closed by a
  pipe.
\<close>

definition md_row :: "pystr list \<Rightarrow> pystr" where
  "md_row cells = 124 # concat (map (\<lambda>c. [32] @ c @ [32, 124]) cells)"

text \<open>
  What the reader makes of such a cell: the spaces in front are skipped
  (\<open>skipinitialspace\<close>), the space before the closing pipe stays.
\<close>

definition cell_token :: "pystr \<Rightarrow> pystr" where
  "cell_token c = dropWhile (\<lambda>x. x = 32) (c @ [32])"

text \<open>
  A cell that the reader takes as one field: it holds no pipe and no line boundary, and
  its first character after the leading spaces is no double quote, which would open a
  quoted field.
\<close>

definition plain_cell :: "pystr \<Rightarrow> bool" where
  "plain_cell c =
     (list_all (\<lambda>x. x \<noteq> 124 \<and> \<not> is_linebreak x) c
      \<and> (case dropWhile (\<lambda>x. x = 32) c of [] \<Rightarrow> True | x # _ \<Rightarrow> x \<noteq> 34))"

text \<open>The fields of a row: the cells between the two empty fields at the edges.\<close>

definition row_fields :: "pystr list \<Rightarrow> pystr list" where
  "row_fields cells = [] # map cell_token cells @ [[]]"

text \<open>
  A table block: the header row, separator lines (\<open>seps\<close>), the data rows, joined by
  newlines.
\<close>

definition md_table :: "pystr list \<Rightarrow> pystr list \<Rightarrow> pystr list list \<Rightarrow> pystr" where
  "md_table hdr seps rows = py_join [10] (md_row hdr # seps @ map md_row rows)"

text \<open>The number a weight cell of such a table is coerced to.\<close>

definition weight_cell_value :: "pystr \<Rightarrow> pyfloat" where
  "weight_cell_value c = to_numeric (replace_char 44 [] (replace_char 37 [] (cell_token c)))"

text \<open>The row of the frame that a data row becomes, its weight at position \<open>j\<close>.\<close>

definition read_row :: "nat \<Rightarrow> pystr list \<Rightarrow> cell list" where
  "read_row j r = (map (\<lambda>c. Text (cell_token c)) r)[j := Number (weight_cell_value (r ! j))]"

text \<open>
  A clean percentage: one to fifteen digits followed by a percent sign, as \<open>45%\<close>.
  A number of at most fifteen digits is below \<open>2\<^sup>5\<^sup>3\<close>, so \<open>float64\<close> holds it
  exactly and the coercion neither rounds it nor leaves the range (leading zeros count
  as digits, as they do in the library's parser).
\<close>

definition clean_percentage :: "pystr \<Rightarrow> bool" where
  "clean_percentage c =
     (c \<noteq> [] \<and> last c = 37 \<and> butlast c \<noteq> [] \<and> list_all is_digit (butlast c)
      \<and> length (butlast c) \<le> 15)"

text \<open>
  A well-formed table: plain cells, every data row as long as the header, at least one
  data row, separator lines made of pipes, spaces and dashes, column names that are not
  empty, differ from each other once stripped and do not start with \<open>Unnamed\<close>, and
  a weight column among them.
\<close>

definition well_formed_table ::
  "(pystr \<Rightarrow> pystr) \<Rightarrow> pystr list \<Rightarrow> pystr list \<Rightarrow> pystr list list \<Rightarrow> bool" where
  "well_formed_table ulower hdr seps rows =
     (list_all plain_cell hdr
      \<and> list_all (\<lambda>r. length r = length hdr \<and> list_all plain_cell r) rows
      \<and> rows \<noteq> []
      \<and> list_all is_decorative seps
      \<and> distinct (map py_strip hdr)
      \<and> list_all (\<lambda>h. py_strip h \<noteq> [] \<and> \<not> prefix (lit ''Unnamed'') (cell_token h)) hdr
      \<and> list_ex (is_weight_name ulower) (map py_strip hdr))"

section \<open>Facts about extraction\<close>

lemma scan_lines_no_pipe:
  "list_all (\<lambda>l. \<not> str_in [124] l) ls \<Longrightarrow> scan_lines b acc ls = acc"
  by (induction ls arbitrary: b acc) auto

lemma split_first_None_iff: "split_first [c] s = None \<longleftrightarrow> c \<notin> set s"
  by (induction s) (auto split: prod.splits)

lemma str_in_char: "str_in [c] s \<longleftrightarrow> c \<in> set s"
  by (simp add: str_in_def split_first_None_iff)

lemma dropWhile_Nil_list_all: "dropWhile P s = [] \<longleftrightarrow> list_all P s"
  by (induction s) auto

lemma dropWhile_all_dropped: "list_all P (dropWhile P s) \<Longrightarrow> dropWhile P s = []"
  by (induction s) (auto split: if_splits)

lemma py_strip_empty_iff: "py_strip s = [] \<longleftrightarrow> list_all is_space s"
proof
  assume "py_strip s = []"
  then have "dropWhile is_space (rev (dropWhile is_space s)) = []"
    by (simp add: py_strip_def)
  then have "list_all is_space (dropWhile is_space s)"
    by (simp only: dropWhile_Nil_list_all list_all_rev)
  then have "dropWhile is_space s = []"
    by (rule dropWhile_all_dropped)
  then show "list_all is_space s"
    by (simp only: dropWhile_Nil_list_all)
next
  assume "list_all is_space s"
  then have "dropWhile is_space s = []"
    by (simp only: dropWhile_Nil_list_all)
  then show "py_strip s = []" by (simp add: py_strip_def del: dropWhile_eq_Nil_conv)
qed

lemma pipe_not_space: "\<not> is_space 124"
  by (simp add: is_space_def)

lemma pipe_not_blank: "str_in [124] l \<Longrightarrow> py_strip l \<noteq> []"
  using pipe_not_space by (auto simp: str_in_char py_strip_empty_iff list_all_iff)

lemma scan_lines_in_table:
  "scan_lines True acc ls =
     acc @ filter (str_in [124]) (takeWhile (\<lambda>l. py_strip l \<noteq> []) ls)"
  by (induction ls arbitrary: acc) (auto simp: pipe_not_blank)

lemma scan_lines_start:
  "scan_lines False acc ls =
     acc @ filter (str_in [124])
       (takeWhile (\<lambda>l. py_strip l \<noteq> []) (dropWhile (\<lambda>l. \<not> str_in [124] l) ls))"
  by (induction ls arbitrary: acc) (auto simp: scan_lines_in_table pipe_not_blank)

lemma split_loop_not_Nil: "split_loop sep s \<noteq> []"
  by (subst split_loop.simps) (auto split: option.splits)

lemma split_loop_two: "sep \<noteq> [] \<Longrightarrow> str_in sep s \<Longrightarrow> 1 < length (split_loop sep s)"
  using split_loop_not_Nil
  by (subst split_loop.simps) (auto simp: str_in_def split: option.splits)

lemma py_join_not_Nil:
  "ls \<noteq> [] \<Longrightarrow> list_all (\<lambda>l. l \<noteq> []) ls \<Longrightarrow> py_join sep ls \<noteq> []"
  by (induction sep ls rule: py_join.induct) auto

lemma split_first_hd_absent:
  "sub \<noteq> [] \<Longrightarrow> hd sub \<notin> set b \<Longrightarrow> split_first sub (b @ sub @ a) = Some (b, a)"
proof (induction b)
  case Nil
  then show ?case by (cases sub) auto
next
  case (Cons c b)
  then have "\<not> prefix sub (c # b @ sub @ a)"
    by (cases sub) auto
  with Cons show ?case by simp
qed

lemma split_first_hd_none:
  "sub \<noteq> [] \<Longrightarrow> hd sub \<notin> set a \<Longrightarrow> split_first sub a = None"
proof (induction a)
  case Nil
  then show ?case by simp
next
  case (Cons c a)
  then have "\<not> prefix sub (c # a)"
    by (cases sub) auto
  with Cons show ?case by simp
qed

lemma split_loop_once:
  assumes "sub \<noteq> []" "hd sub \<notin> set b" "hd sub \<notin> set a"
  shows "split_loop sub (b @ sub @ a) = [b, a]"
    and "str_in sub (b @ sub @ a)"
proof -
  have 1: "split_first sub (b @ sub @ a) = Some (b, a)"
    using assms by (simp add: split_first_hd_absent)
  have 2: "split_first sub a = None"
    using assms by (simp add: split_first_hd_none)
  show "split_loop sub (b @ sub @ a) = [b, a]"
    using assms(1) 1 2
    by (simp add: split_loop.simps[of sub "b @ sub @ a"] split_loop.simps[of sub a])
  show "str_in sub (b @ sub @ a)" by (simp add: str_in_def 1)
qed

text \<open>The block the loop builds, and the whole result of extraction in closed form.\<close>

definition block_lines :: "pystr \<Rightarrow> pystr list" where
  "block_lines answer =
     filter (str_in [124])
       (takeWhile (\<lambda>l. py_strip l \<noteq> [])
          (dropWhile (\<lambda>l. \<not> str_in [124] l) (splitlines answer)))"

lemma block_lines_join_not_Nil:
  assumes "block_lines answer \<noteq> []"
  shows "py_join [10] (block_lines answer) \<noteq> []"
proof (rule py_join_not_Nil[OF assms])
  have "list_all (str_in [124]) (block_lines answer)"
    by (simp add: block_lines_def list_all_iff)
  then show "list_all (\<lambda>l. l \<noteq> []) (block_lines answer)"
    by (auto simp: list_all_iff str_in_char)
qed

lemma extract_closed_form:
  "extract_markdown_table answer =
     (if block_lines answer = [] then Inr (None, answer)
      else Inr (Some (py_join [10] (block_lines answer)),
             py_strip (split_loop (py_join [10] (block_lines answer)) answer ! 0) @ [10, 10] @
             (if str_in (py_join [10] (block_lines answer)) answer
              then py_strip (split_loop (py_join [10] (block_lines answer)) answer ! 1)
              else [])))"
proof -
  have scan: "scan_lines False [] (splitlines answer) = block_lines answer"
    by (simp add: scan_lines_start block_lines_def)
  show ?thesis
  proof (cases rule: bool.exhaust[of "block_lines answer = []"])
    case True
    then show ?thesis by (simp add: extract_markdown_table_def scan)
  next
    case False
    then have ne: "py_join [10] (block_lines answer) \<noteq> []"
      using block_lines_join_not_Nil by simp
    have l0: "0 < length (split_loop (py_join [10] (block_lines answer)) answer)"
      using split_loop_not_Nil by simp
    show ?thesis
      using False ne l0 split_loop_two[OF ne]
      by (simp add: extract_markdown_table_def scan py_split_def py_index_def Let_def)
  qed
qed

lemma block_lines_not_Nil:
  assumes "list_ex (str_in [124]) (splitlines answer)"
  shows "block_lines answer \<noteq> []"
proof -
  define ls where "ls = dropWhile (\<lambda>l. \<not> str_in [124] l) (splitlines answer)"
  from assms have "ls \<noteq> []"
    by (auto simp: ls_def list_ex_iff)
  then obtain l rest where ls: "ls = l # rest"
    using list.exhaust by blast
  have "\<not> \<not> str_in [124] (hd ls)"
    unfolding ls_def using \<open>ls \<noteq> []\<close>[unfolded ls_def] by (rule hd_dropWhile)
  then have "str_in [124] l"
    by (simp add: ls)
  then show ?thesis
    using ls pipe_not_blank unfolding block_lines_def ls_def[symmetric] by simp
qed

text \<open>
  Claim C4. When no line of the input contains the separator \<open>|\<close>, extraction returns
  no table block and the input text itself, unchanged.
\<close>

theorem extract_no_pipe:
  assumes "list_all (\<lambda>l. \<not> str_in [124] l) (splitlines answer)"
  shows "extract_markdown_table answer = Inr (None, answer)"
  using scan_lines_no_pipe[OF assms, of False "[]"]
  by (simp add: extract_markdown_table_def)

theorem extract_no_pipe_witness:
  "list_all (\<lambda>l. \<not> str_in [124] l) (splitlines (lit ''no table'' @ [10] @ lit ''here''))
   \<and> extract_markdown_table (lit ''no table'' @ [10] @ lit ''here'')
       = Inr (None, lit ''no table'' @ [10] @ lit ''here'')"
proof -
  have h: "list_all (\<lambda>l. \<not> str_in [124] l) (splitlines (lit ''no table'' @ [10] @ lit ''here''))"
    by (simp add: lit_def splitlines_def is_linebreak_def str_in_def)
  show ?thesis using h extract_no_pipe[OF h] by simp
qed

text \<open>
  Claim C3, as amended. When some line of the input contains \<open>|\<close>, the block is made of
  the lines that contain \<open>|\<close>, in input order, from the first such line up to the first
  blank line after it (or the end of the input), joined by newlines. Lines without a
  \<open>|\<close> inside that range are passed over, so the block need not be a contiguous run of
  input lines.
\<close>

theorem extract_block:
  assumes "list_ex (str_in [124]) (splitlines answer)"
  shows "\<exists>remainder. extract_markdown_table answer =
           Inr (Some (py_join [10]
                  (filter (str_in [124])
                     (takeWhile (\<lambda>l. py_strip l \<noteq> [])
                        (dropWhile (\<lambda>l. \<not> str_in [124] l) (splitlines answer))))),
                remainder)"
  using block_lines_not_Nil[OF assms]
  by (simp add: extract_closed_form) (simp add: block_lines_def)

lemma splitlines_gap: "splitlines (lit ''|a|'' @ [10] @ lit ''x'' @ [10] @ lit ''|b|'')
    = [lit ''|a|'', lit ''x'', lit ''|b|'']"
  by (simp add: lit_def splitlines_def is_linebreak_def)

theorem extract_block_witness:
  "list_ex (str_in [124]) (splitlines (lit ''|a|'' @ [10] @ lit ''x'' @ [10] @ lit ''|b|''))
   \<and> (\<exists>remainder. extract_markdown_table (lit ''|a|'' @ [10] @ lit ''x'' @ [10] @ lit ''|b|'')
         = Inr (Some (lit ''|a|'' @ [10] @ lit ''|b|''), remainder))"
proof -
  have h: "list_ex (str_in [124]) (splitlines (lit ''|a|'' @ [10] @ lit ''x'' @ [10] @ lit ''|b|''))"
    unfolding splitlines_gap by (simp add: lit_def str_in_char)
  show ?thesis
    using h extract_block[OF h] unfolding splitlines_gap
    by (simp add: lit_def str_in_char is_space_def py_strip_def)
qed

text \<open>
  The claim as stated fails: in \<open>|a|\<close>, \<open>x\<close>, \<open>|b|\<close> the block is \<open>|a|\<close>, \<open>|b|\<close>, which is
  no contiguous run of the input's lines.
\<close>

theorem extract_block_not_contiguous:
  "(\<exists>remainder. extract_markdown_table (lit ''|a|'' @ [10] @ lit ''x'' @ [10] @ lit ''|b|'')
       = Inr (Some (lit ''|a|'' @ [10] @ lit ''|b|''), remainder))
   \<and> \<not> sublist (splitlines (lit ''|a|'' @ [10] @ lit ''|b|''))
          (splitlines (lit ''|a|'' @ [10] @ lit ''x'' @ [10] @ lit ''|b|''))"
proof -
  have blk: "block_lines (lit ''|a|'' @ [10] @ lit ''x'' @ [10] @ lit ''|b|'')
      = [lit ''|a|'', lit ''|b|'']"
    unfolding block_lines_def splitlines_gap
    by (simp add: lit_def str_in_char is_space_def py_strip_def)
  have "splitlines (lit ''|a|'' @ [10] @ lit ''|b|'') = [lit ''|a|'', lit ''|b|'']"
    by (simp add: lit_def splitlines_def is_linebreak_def)
  then have "\<not> sublist (splitlines (lit ''|a|'' @ [10] @ lit ''|b|''))
          (splitlines (lit ''|a|'' @ [10] @ lit ''x'' @ [10] @ lit ''|b|''))"
    unfolding splitlines_gap by (simp add: sublist_Cons_right lit_def)
  then show ?thesis
    unfolding extract_closed_form blk by simp
qed

section \<open>Facts about the decorative rows\<close>

lemma replace_char_empty: "replace_char c [] s = filter (\<lambda>x. x \<noteq> c) s"
  by (induction s) (auto simp: replace_char_def)

lemma is_decorative_iff: "is_decorative line \<longleftrightarrow> set line \<subseteq> {124, 32, 45}"
  by (auto simp: is_decorative_def replace_char_empty)




section \<open>Facts about normalization\<close>

text \<open>The definitions a concrete table is evaluated with.\<close>

lemmas eval_defs = lit_def parse_portfolio_table_def parse_body_def splitlines_def is_linebreak_def
  py_strip_def is_space_def clean_lines_def is_decorative_def replace_char_def clean_table_md_def
  drop_unnamed_def normalize_weights_def weight_index_def weight_column_def
  read_csv_def tokenize_def start_field_def in_field_def header_names_def dedup_names_def
  select_def is_weight_name_def weight_keywords_def py_lower_def ascii_lower_def str_in_def
  to_numeric_def parse_decimal_def isspace_ascii_def is_digit_def Let_def enumerate_eq_zip
  digits_value_def pow10_def decimal.simps

text \<open>
  Claim C1. On the scenario of the specification, extraction returns the five table
  lines as the block and the two prose lines, in order, as the remainder; normalization
  of that block returns the rows of Apple and Samsung, the Cash row is dropped, and the
  weight column is 40, 35.
\<close>

theorem scenario:
  "extract_markdown_table
     (lit ''Here is your plan.'' @ [10, 10] @
      (lit ''| Name | Ticker | Weight | Country |'' @ [10] @
       lit ''|------|--------|--------|---------|'' @ [10] @
       lit ''| Apple | AAPL | 40% | US |'' @ [10] @
       lit ''| Samsung | 005930.KS | 35% | KR |'' @ [10] @
       lit ''| Cash | - | bad | - |'') @ [10, 10] @
      lit ''Risk notes follow.'')
   = Inr (Some (lit ''| Name | Ticker | Weight | Country |'' @ [10] @
                lit ''|------|--------|--------|---------|'' @ [10] @
                lit ''| Apple | AAPL | 40% | US |'' @ [10] @
                lit ''| Samsung | 005930.KS | 35% | KR |'' @ [10] @
                lit ''| Cash | - | bad | - |''),
          lit ''Here is your plan.'' @ [10, 10] @ lit ''Risk notes follow.'')
   \<and> (\<exists>df. parse_portfolio_table ulower mangle
          (lit ''| Name | Ticker | Weight | Country |'' @ [10] @
           lit ''|------|--------|--------|---------|'' @ [10] @
           lit ''| Apple | AAPL | 40% | US |'' @ [10] @
           lit ''| Samsung | 005930.KS | 35% | KR |'' @ [10] @
           lit ''| Cash | - | bad | - |'') = Inr (Some df)
        \<and> df_columns df = [lit ''Name'', lit ''Ticker'', lit ''Weight'', lit ''Country'']
        \<and> df_rows df =
            [[Text (lit ''Apple ''), Text (lit ''AAPL ''), Number (Fin 40), Text (lit ''US '')],
             [Text (lit ''Samsung ''), Text (lit ''005930.KS ''), Number (Fin 35),
              Text (lit ''KR '')]]
        \<and> weight_column ulower df = [Number (Fin 40), Number (Fin 35)])"
proof
  define tb where "tb = lit ''| Name | Ticker | Weight | Country |'' @ [10] @
      lit ''|------|--------|--------|---------|'' @ [10] @
      lit ''| Apple | AAPL | 40% | US |'' @ [10] @
      lit ''| Samsung | 005930.KS | 35% | KR |'' @ [10] @
      lit ''| Cash | - | bad | - |''"
  define pre where "pre = lit ''Here is your plan.'' @ [10, 10]"
  define post where "post = [10, 10] @ lit ''Risk notes follow.''"
  have blk: "block_lines (pre @ tb @ post) = [lit ''| Name | Ticker | Weight | Country |'',
      lit ''|------|--------|--------|---------|'', lit ''| Apple | AAPL | 40% | US |'',
      lit ''| Samsung | 005930.KS | 35% | KR |'', lit ''| Cash | - | bad | - |'']"
    by (simp add: block_lines_def pre_def tb_def post_def lit_def splitlines_def is_linebreak_def
        str_in_char py_strip_def is_space_def)
  have j: "py_join [10] (block_lines (pre @ tb @ post)) = tb"
    unfolding blk by (simp add: tb_def)
  have ne: "tb \<noteq> []" "hd tb \<notin> set pre" "hd tb \<notin> set post"
    by (simp_all add: tb_def pre_def post_def lit_def)
  have "extract_markdown_table (pre @ tb @ post)
      = Inr (Some tb, py_strip pre @ [10, 10] @ py_strip post)"
    using split_loop_once[OF ne] ne(1)
    by (simp add: extract_closed_form j) (simp add: blk)
  moreover have "py_strip pre = lit ''Here is your plan.''"
      "py_strip post = lit ''Risk notes follow.''"
    by (simp_all add: pre_def post_def py_strip_def is_space_def lit_def)
  ultimately show "extract_markdown_table
     (lit ''Here is your plan.'' @ [10, 10] @
      (lit ''| Name | Ticker | Weight | Country |'' @ [10] @
       lit ''|------|--------|--------|---------|'' @ [10] @
       lit ''| Apple | AAPL | 40% | US |'' @ [10] @
       lit ''| Samsung | 005930.KS | 35% | KR |'' @ [10] @
       lit ''| Cash | - | bad | - |'') @ [10, 10] @
      lit ''Risk notes follow.'')
   = Inr (Some (lit ''| Name | Ticker | Weight | Country |'' @ [10] @
                lit ''|------|--------|--------|---------|'' @ [10] @
                lit ''| Apple | AAPL | 40% | US |'' @ [10] @
                lit ''| Samsung | 005930.KS | 35% | KR |'' @ [10] @
                lit ''| Cash | - | bad | - |''),
          lit ''Here is your plan.'' @ [10, 10] @ lit ''Risk notes follow.'')"
    by (simp add: pre_def tb_def post_def)
next
  show "\<exists>df. parse_portfolio_table ulower mangle
          (lit ''| Name | Ticker | Weight | Country |'' @ [10] @
           lit ''|------|--------|--------|---------|'' @ [10] @
           lit ''| Apple | AAPL | 40% | US |'' @ [10] @
           lit ''| Samsung | 005930.KS | 35% | KR |'' @ [10] @
           lit ''| Cash | - | bad | - |'') = Inr (Some df)
        \<and> df_columns df = [lit ''Name'', lit ''Ticker'', lit ''Weight'', lit ''Country'']
        \<and> df_rows df =
            [[Text (lit ''Apple ''), Text (lit ''AAPL ''), Number (Fin 40), Text (lit ''US '')],
             [Text (lit ''Samsung ''), Text (lit ''005930.KS ''), Number (Fin 35),
              Text (lit ''KR '')]]
        \<and> weight_column ulower df = [Number (Fin 40), Number (Fin 35)]"
    by (simp add: eval_defs)
qed

text \<open>
  Claim C9. Neither function raises: extraction always returns a pair, and
  normalization always returns a frame or \<open>None\<close>, whatever the body of its \<open>try\<close>
  block does.
\<close>

theorem never_raises:
  "(\<exists>r. extract_markdown_table answer = Inr r)
   \<and> (\<exists>r. parse_portfolio_table ulower mangle table_md = Inr r)"
  by (simp add: extract_closed_form parse_portfolio_table_def split: sum.splits)

lemma weight_name_not_empty: "is_weight_name ulower c \<Longrightarrow> c \<noteq> []"
  by (auto simp: is_weight_name_def weight_keywords_def py_lower_def str_in_def lit_def)

lemma find_weight_not_empty: "find (is_weight_name ulower) cols = Some w \<Longrightarrow> w \<noteq> []"
  using weight_name_not_empty by (auto simp: find_Some_iff)





lemma splitlines_from_no_break:
  "list_all (\<lambda>c. \<not> is_linebreak c) cur \<Longrightarrow>
   list_all (list_all (\<lambda>c. \<not> is_linebreak c)) (splitlines_from cur s)"
  by (induction cur s rule: splitlines_from.induct) auto

lemma splitlines_no_break:
  "list_all (list_all (\<lambda>c. \<not> is_linebreak c)) (splitlines s)"
  by (simp add: splitlines_def splitlines_from_no_break)

lemma step_recs:
  "length (recs_of (step t c)) \<le> length (recs_of t) + (if c = 10 then 1 else 0)"
  by (induction t c rule: step.induct) (auto simp: start_field_def in_field_def)

lemma foldl_step_recs:
  "length (recs_of (foldl step t xs)) \<le> length (recs_of t) + count_list xs 10"
proof (induction xs arbitrary: t)
  case Nil
  then show ?case by simp
next
  case (Cons c xs)
  show ?case
    using Cons.IH[of "step t c"] step_recs[of t c] by auto
qed

lemma handle_eof_recs:
  "handle_eof t = Inr recs \<Longrightarrow> length recs \<le> length (recs_of t) + 1"
  by (induction t rule: handle_eof.induct) auto

lemma tokenize_length:
  "tokenize inp = Inr recs \<Longrightarrow> length recs \<le> count_list inp 10 + 1"
  using foldl_step_recs[of "Tok START_RECORD [] [] []" inp]
    handle_eof_recs[of "foldl step (Tok START_RECORD [] [] []) inp" recs]
  by (simp add: tokenize_def)

lemma count_join_gen:
  "sep = [c] \<Longrightarrow> list_all (\<lambda>l. c \<notin> set l) ls \<Longrightarrow>
   count_list (py_join sep ls) c = length ls - 1"
  by (induction sep ls rule: py_join.induct) (auto simp: count_list_0_iff)

lemma count_join:
  "list_all (\<lambda>l. 10 \<notin> set l) ls \<Longrightarrow> count_list (py_join [10] ls) 10 = length ls - 1"
  by (simp add: count_join_gen)

lemma clean_lines_no_lf:
  "list_all (\<lambda>l. 10 \<notin> set l) (clean_lines (splitlines s))"
  using splitlines_no_break[of s]
  by (auto simp: clean_lines_def list_all_iff is_linebreak_def)

lemma read_csv_rows:
  assumes "read_csv mg inp = Inr df"
  shows "length (df_rows df) \<le> count_list inp 10"
    and "list_all (\<lambda>row. length row = length (df_columns df)) (df_rows df)"
proof -
  from assms obtain hdr data where tk: "tokenize inp = Inr (hdr # data)"
    by (auto simp: read_csv_def split: sum.splits list.splits)
  define k where "k = length hdr"
  define w where "w = (case data of [] \<Rightarrow> k | r # _ \<Rightarrow> max k (length r))"
  have ok: "\<not> list_ex (\<lambda>r. w < length r) (tl data)"
    and df: "df = \<lparr>df_columns = dedup_names mg (header_names hdr),
                  df_rows = map (\<lambda>r. map Text (drop (w - k) (r @ replicate (w - length r) []))) data\<rparr>"
    unfolding w_def k_def using assms tk
    by (simp_all add: read_csv_def Let_def split: if_splits)
  show "length (df_rows df) \<le> count_list inp 10"
    using tokenize_length[OF tk] by (simp add: df)
  have kw: "k \<le> w" by (auto simp: w_def split: list.splits)
  have "\<forall>r\<in>set data. length r \<le> w"
    using ok by (cases data) (auto simp: w_def list_ex_iff)
  moreover have "length (df_columns df) = k"
    by (simp add: df dedup_names_def header_names_def k_def)
  ultimately show "list_all (\<lambda>row. length row = length (df_columns df)) (df_rows df)"
    using kw by (auto simp: df list_all_iff)
qed


lemma select_length:
  "length keep = length xs \<Longrightarrow> length (select keep xs) = length (filter (\<lambda>b. b) keep)"
  by (induction keep xs rule: list_induct2) (auto simp: select_def)

lemma drop_unnamed_shape:
  assumes "list_all (\<lambda>row. length row = length (df_columns df)) (df_rows df)"
  shows "list_all (\<lambda>row. length row = length (df_columns (drop_unnamed df)))
           (df_rows (drop_unnamed df))"
    and "length (df_rows (drop_unnamed df)) = length (df_rows df)"
  using assms by (auto simp: drop_unnamed_def Let_def list_all_iff select_length)

lemma takeWhile_length_less:
  "list_ex P xs \<Longrightarrow> length (takeWhile (\<lambda>x. \<not> P x) xs) < length xs"
  by (induction xs) auto

lemma apply_at_nth:
  "j < length row \<Longrightarrow> apply_at j f row ! j = f (row ! j)"
  by (induction j f row rule: apply_at.induct) auto

lemma apply_at_length: "length (apply_at j f row) = length row"
  by (induction j f row rule: apply_at.induct) auto

lemma coerce_cell_number: "\<exists>v. coerce_cell c = Number v"
  by (cases c) auto

lemma normalize_weights_Some:
  assumes "normalize_weights ul df = Inr (Some res)"
    and "list_all (\<lambda>row. length row = length (df_columns df)) (df_rows df)"
  shows "length (df_rows res) \<le> length (df_rows df)"
    and "list_all (\<lambda>c. \<exists>v. c = Number v \<and> v \<noteq> NaN) (weight_column ul res)"
proof -
  define j where "j = weight_index ul (df_columns df)"
  from assms(1) obtain w where w: "find (is_weight_name ul) (df_columns df) = Some w"
    and res: "res = \<lparr>df_columns = df_columns df,
                   df_rows = filter (\<lambda>row. \<not> weight_missing j row)
                               (map (apply_at j coerce_cell) (df_rows df))\<rparr>"
    unfolding j_def
    by (auto simp: normalize_weights_def split: option.splits if_splits)
  show "length (df_rows res) \<le> length (df_rows df)"
    using length_filter_le[of _ "map (apply_at j coerce_cell) (df_rows df)"]
    by (simp add: res)
  from w have "list_ex (is_weight_name ul) (df_columns df)"
    by (auto simp: find_Some_iff list_ex_iff)
  then have jlt: "j < length (df_columns df)"
    unfolding j_def weight_index_def by (rule takeWhile_length_less)
  show "list_all (\<lambda>c. \<exists>v. c = Number v \<and> v \<noteq> NaN) (weight_column ul res)"
    unfolding weight_column_def list_all_iff
  proof
    fix c assume "c \<in> set (map (\<lambda>row. row ! weight_index ul (df_columns res)) (df_rows res))"
    then obtain r0 where r0: "r0 \<in> set (df_rows df)"
      and nm: "\<not> weight_missing j (apply_at j coerce_cell r0)"
      and c: "c = apply_at j coerce_cell r0 ! j"
      by (auto simp: res j_def)
    from r0 assms(2) jlt have lt: "j < length r0"
      by (auto simp: list_all_iff)
    obtain v where v: "coerce_cell (r0 ! j) = Number v"
      using coerce_cell_number by blast
    from lt have "apply_at j coerce_cell r0 ! j = Number v"
      by (simp add: apply_at_nth v)
    moreover from nm lt have "apply_at j coerce_cell r0 ! j \<noteq> Number NaN"
      by (simp add: apply_at_length)
    ultimately show "\<exists>v. c = Number v \<and> v \<noteq> NaN"
      using c by auto
  qed
qed

text \<open>
  Claim C6, as amended. When normalization succeeds, the frame has at most as many rows
  as the block has lines after the header (counting the lines that survive the
  stripping), and every entry of the weight column is a number other than NaN. It may be
  an infinity: \<open>dropna\<close> removes the missing values only.
\<close>

theorem parse_rows_and_weights:
  assumes "parse_portfolio_table ul mg t = Inr (Some df)"
  shows "length (df_rows df) \<le> length (clean_lines (splitlines (py_strip t))) - 1
     \<and> list_all (\<lambda>c. \<exists>v. c = Number v \<and> v \<noteq> NaN) (weight_column ul df)"
proof -
  from assms obtain raw where raw: "read_csv mg (clean_table_md t) = Inr raw"
    and nw: "normalize_weights ul (drop_unnamed raw) = Inr (Some df)"
    by (auto simp: parse_portfolio_table_def parse_body_def split: sum.splits)
  note shape = drop_unnamed_shape[OF read_csv_rows(2)[OF raw]]
  have "length (df_rows raw) \<le> length (clean_lines (splitlines (py_strip t))) - 1"
    using read_csv_rows(1)[OF raw] count_join[OF clean_lines_no_lf]
    by (simp add: clean_table_md_def)
  then show ?thesis
    using normalize_weights_Some[OF nw shape(1)] shape(2) by simp
qed

theorem parse_rows_and_weights_witness:
  "parse_portfolio_table (\<lambda>s. s) (\<lambda>names i. names ! i)
      (lit ''| Name | Weight |'' @ [10] @ lit ''| A | 40% |'' @ [10] @ lit ''| B | bad |'')
     = Inr (Some \<lparr>df_columns = [lit ''Name'', lit ''Weight''],
                  df_rows = [[Text (lit ''A ''), Number (Fin 40)]]\<rparr>)
   \<and> length (df_rows \<lparr>df_columns = [lit ''Name'', lit ''Weight''],
                      df_rows = [[Text (lit ''A ''), Number (Fin 40)]]\<rparr>)
       \<le> length (clean_lines (splitlines (py_strip
            (lit ''| Name | Weight |'' @ [10] @ lit ''| A | 40% |'' @ [10] @ lit ''| B | bad |'')))) - 1
   \<and> list_all (\<lambda>c. \<exists>v. c = Number v \<and> v \<noteq> NaN)
        (weight_column (\<lambda>s. s) \<lparr>df_columns = [lit ''Name'', lit ''Weight''],
                      df_rows = [[Text (lit ''A ''), Number (Fin 40)]]\<rparr>)"
proof -
  have h: "parse_portfolio_table (\<lambda>s. s) (\<lambda>names i. names ! i)
      (lit ''| Name | Weight |'' @ [10] @ lit ''| A | 40% |'' @ [10] @ lit ''| B | bad |'')
     = Inr (Some \<lparr>df_columns = [lit ''Name'', lit ''Weight''],
                  df_rows = [[Text (lit ''A ''), Number (Fin 40)]]\<rparr>)"
    by (simp add: eval_defs)
  show ?thesis
    using h parse_rows_and_weights[OF h] by blast
qed

text \<open>
  The claim as stated fails on the finiteness: a weight cell \<open>inf\<close> is coerced to an
  infinity, which is not missing, and its row is kept.
\<close>

theorem parse_keeps_infinite_weight:
  "parse_portfolio_table (\<lambda>s. s) (\<lambda>names i. names ! i)
      (lit ''| Name | Weight |'' @ [10] @ lit ''| A |inf|'')
     = Inr (Some \<lparr>df_columns = [lit ''Name'', lit ''Weight''],
                  df_rows = [[Text (lit ''A ''), Number PosInf]]\<rparr>)
   \<and> weight_column (\<lambda>s. s) \<lparr>df_columns = [lit ''Name'', lit ''Weight''],
                  df_rows = [[Text (lit ''A ''), Number PosInf]]\<rparr> = [Number PosInf]"
  by (simp add: eval_defs)

section \<open>Facts about tables\<close>

lemma in_field_run:
  "list_all (\<lambda>x. x \<noteq> 124 \<and> x \<noteq> 10) ys \<Longrightarrow>
   foldl step (Tok IN_FIELD f fs rs) ys = Tok IN_FIELD (f @ ys) fs rs"
  by (induction ys arbitrary: f) (auto simp: in_field_def)

lemma start_field_spaces:
  "list_all (\<lambda>x. x = 32) ys \<Longrightarrow>
   foldl step (Tok START_FIELD [] fs rs) ys = Tok START_FIELD [] fs rs"
  by (induction ys) (auto simp: start_field_def)

lemma cell_step:
  assumes "plain_cell c"
  shows "foldl step (Tok START_FIELD [] fs rs) ([32] @ c @ [32, 124])
       = Tok START_FIELD [] (fs @ [cell_token c]) rs"
proof -
  define sp where "sp = takeWhile (\<lambda>x. x = 32) c"
  define rest where "rest = dropWhile (\<lambda>x. x = 32) c"
  have c: "c = sp @ rest" by (simp add: sp_def rest_def)
  have sp: "list_all (\<lambda>x. x = 32) (32 # sp)"
    by (auto simp: sp_def list_all_iff dest: set_takeWhileD)
  have run: "foldl step (Tok START_FIELD [] fs rs) (32 # sp) = Tok START_FIELD [] fs rs"
    by (rule start_field_spaces[OF sp])
  show ?thesis
  proof (cases rest)
    case Nil
    have "cell_token c = []"
      using sp by (simp add: cell_token_def c Nil list_all_iff)
    then show ?thesis
      using run by (simp add: c Nil start_field_def)
  next
    case (Cons x r)
    have x32: "x \<noteq> 32"
      using Cons by (simp add: rest_def dropWhile_eq_Cons_conv)
    from assms have x34: "x \<noteq> 34"
      by (simp add: plain_cell_def rest_def[symmetric] Cons)
    from assms have all: "list_all (\<lambda>x. x \<noteq> 124 \<and> x \<noteq> 10) (x # r)"
      by (auto simp: plain_cell_def c Cons list_all_iff is_linebreak_def)
    have tokc: "cell_token c = x # r @ [32]"
      using sp x32 by (simp add: cell_token_def c Cons list_all_iff dropWhile_append3)
    have "foldl step (Tok START_FIELD [] fs rs) ((32 # sp) @ x # r @ [32, 124])
        = foldl step (Tok START_FIELD [] fs rs) (x # r @ [32, 124])"
      by (simp only: foldl_append run)
    also have "\<dots> = foldl step (Tok IN_FIELD [x] fs rs) (r @ [32] @ [124])"
      using x32 x34 all by (simp add: start_field_def)
    also have "\<dots> = foldl step (Tok IN_FIELD ([x] @ r @ [32]) fs rs) [124]"
      using all in_field_run[of "r @ [32]" "[x]" fs rs]
      by (simp only: foldl_append[symmetric] append_assoc[symmetric]) (simp add: foldl_append)
    also have "\<dots> = Tok START_FIELD [] (fs @ [cell_token c]) rs"
      by (simp add: in_field_def tokc)
    finally show ?thesis by (simp add: c Cons)
  qed
qed

lemma cells_step:
  "list_all plain_cell cells \<Longrightarrow>
   foldl step (Tok START_FIELD [] fs rs) (concat (map (\<lambda>c. [32] @ c @ [32, 124]) cells))
     = Tok START_FIELD [] (fs @ map cell_token cells) rs"
proof (induction cells arbitrary: fs)
  case Nil
  then show ?case by simp
next
  case (Cons c cells)
  have "foldl step (Tok START_FIELD [] fs rs)
          (([32] @ c @ [32, 124]) @ concat (map (\<lambda>c. [32] @ c @ [32, 124]) cells))
      = foldl step (Tok START_FIELD [] (fs @ [cell_token c]) rs)
          (concat (map (\<lambda>c. [32] @ c @ [32, 124]) cells))"
    using Cons.prems cell_step[of c fs rs] by (simp add: foldl_append)
  then show ?case
    using Cons.IH[of "fs @ [cell_token c]"] Cons.prems by simp
qed

lemma row_step:
  assumes "list_all plain_cell cells"
  shows "foldl step (Tok START_RECORD f0 fs0 rs) (md_row cells)
       = Tok START_FIELD [] ([] # map cell_token cells) rs"
  using cells_step[OF assms, of "[[]]" rs]
  by (simp add: md_row_def start_field_def)

lemma rows_step:
  "list_all (list_all plain_cell) rows \<Longrightarrow>
   foldl step (Tok START_RECORD [] [] rs) (concat (map (\<lambda>r. md_row r @ [10]) rows))
     = Tok START_RECORD [] [] (rs @ map row_fields rows)"
proof (induction rows arbitrary: rs)
  case Nil
  then show ?case by simp
next
  case (Cons r rows)
  have "foldl step (Tok START_RECORD [] [] rs) (md_row r @ [10])
      = Tok START_RECORD [] [] (rs @ [row_fields r])"
    using Cons.prems by (simp add: row_step start_field_def row_fields_def)
  then show ?case
    using Cons.IH[of "rs @ [row_fields r]"] Cons.prems by simp
qed

lemma py_join_snoc:
  "py_join sep (xs @ [x]) = concat (map (\<lambda>r. r @ sep) xs) @ x"
  by (induction sep xs rule: py_join.induct) auto

lemma tokenize_rows:
  assumes "list_all (list_all plain_cell) rows" "rows \<noteq> []"
  shows "tokenize (py_join [10] (map md_row rows)) = Inr (map row_fields rows)"
proof -
  from assms(2) obtain xs x where rows: "rows = xs @ [x]"
    using rev_exhaust by blast
  have j: "py_join [10] (map md_row rows)
      = concat (map (\<lambda>r. md_row r @ [10]) xs) @ md_row x"
    by (simp add: rows py_join_snoc[of "[10]" "map md_row xs" "md_row x"] comp_def)
  have "foldl step (Tok START_RECORD [] [] []) (py_join [10] (map md_row rows))
      = Tok START_FIELD [] ([] # map cell_token x) (map row_fields xs)"
    unfolding j using assms(1) rows_step[of xs "[]"] row_step[of x]
    by (simp add: rows foldl_append)
  then show ?thesis
    by (simp add: tokenize_def rows row_fields_def)
qed

lemma splitlines_from_line:
  "list_all (\<lambda>c. \<not> is_linebreak c) l \<Longrightarrow>
   splitlines_from cur (l @ 10 # rest) = (cur @ l) # splitlines_from [] rest"
proof (induction l arbitrary: cur)
  case Nil
  show ?case by (cases rest) (simp_all add: is_linebreak_def)
next
  case (Cons c l)
  obtain d cs where dcs: "l @ 10 # rest = d # cs"
    by (cases l) auto
  have "c \<noteq> 13" using Cons.prems by (auto simp: is_linebreak_def)
  then have "splitlines_from cur ((c # l) @ 10 # rest) = splitlines_from (cur @ [c]) (l @ 10 # rest)"
    using Cons.prems by (simp add: dcs)
  then show ?case
    using Cons.IH[of "cur @ [c]"] Cons.prems by simp
qed

lemma splitlines_from_last:
  "list_all (\<lambda>c. \<not> is_linebreak c) l \<Longrightarrow> cur @ l \<noteq> [] \<Longrightarrow>
   splitlines_from cur l = [cur @ l]"
proof (induction cur l rule: splitlines_from.induct)
  case (1 cur)
  then show ?case by simp
next
  case (2 cur c)
  then show ?case by simp
next
  case (3 cur c d cs)
  then have "c \<noteq> 13" by (auto simp: is_linebreak_def)
  with 3 show ?case by simp
qed

lemma splitlines_join:
  "ls \<noteq> [] \<Longrightarrow> last ls \<noteq> [] \<Longrightarrow> list_all (list_all (\<lambda>c. \<not> is_linebreak c)) ls \<Longrightarrow>
   sep = [10] \<Longrightarrow> splitlines_from [] (py_join sep ls) = ls"
proof (induction sep ls rule: py_join.induct)
  case (1 sep)
  then show ?case by simp
next
  case (2 sep x)
  then show ?case by (simp add: splitlines_from_last)
next
  case (3 sep x y ys)
  then show ?case by (simp add: splitlines_from_line)
qed

lemma py_strip_id:
  "s \<noteq> [] \<Longrightarrow> \<not> is_space (hd s) \<Longrightarrow> \<not> is_space (last s) \<Longrightarrow> py_strip s = s"
proof -
  assume a: "s \<noteq> []" "\<not> is_space (hd s)" "\<not> is_space (last s)"
  then have 1: "dropWhile is_space s = s" by (cases s) auto
  from a have "rev s \<noteq> []" "\<not> is_space (hd (rev s))" by (simp_all add: hd_rev)
  then have 2: "dropWhile is_space (rev s) = rev s" by (cases "rev s") auto
  show ?thesis by (simp add: py_strip_def 1 2)
qed

lemma md_row_ends: "md_row cells \<noteq> []" "hd (md_row cells) = 124" "last (md_row cells) = 124"
proof -
  show "md_row cells \<noteq> []" "hd (md_row cells) = 124" by (simp_all add: md_row_def)
  show "last (md_row cells) = 124"
    by (induction cells rule: rev_induct) (simp_all add: md_row_def)
qed

lemma set_md_row: "set (md_row cells) = {124} \<union> (if cells = [] then {} else {32}) \<union> \<Union>(set ` set cells)"
  by (induction cells) (auto simp: md_row_def)

lemma not_linebreak_simps: "\<not> is_linebreak 124" "\<not> is_linebreak 32" "\<not> is_linebreak 45"
  by (simp_all add: is_linebreak_def)

lemma plain_cell_no_break: "plain_cell c \<Longrightarrow> x \<in> set c \<Longrightarrow> \<not> is_linebreak x \<and> x \<noteq> 124"
  by (simp add: plain_cell_def list_all_iff)

lemma md_row_no_break:
  assumes "list_all plain_cell cells"
  shows "list_all (\<lambda>c. \<not> is_linebreak c) (md_row cells)"
  unfolding list_all_iff
proof
  fix x assume "x \<in> set (md_row cells)"
  then consider "x = 124" | "x = 32" | c where "c \<in> set cells" "x \<in> set c"
    unfolding set_md_row by (auto split: if_splits)
  then show "\<not> is_linebreak x"
  proof cases
    case 1 then show ?thesis by (simp add: not_linebreak_simps)
  next
    case 2 then show ?thesis by (simp add: not_linebreak_simps)
  next
    case 3
    with assms have "plain_cell c" by (simp add: list_all_iff)
    with 3 show ?thesis using plain_cell_no_break by blast
  qed
qed

lemma decorative_no_break:
  assumes "is_decorative l"
  shows "list_all (\<lambda>c. \<not> is_linebreak c) l"
  unfolding list_all_iff
proof
  fix x assume "x \<in> set l"
  with assms have "x = 124 \<or> x = 32 \<or> x = 45"
    by (auto simp: is_decorative_iff)
  then show "\<not> is_linebreak x"
    using not_linebreak_simps by auto
qed

lemma py_join_last:
  "ls \<noteq> [] \<Longrightarrow> last ls \<noteq> [] \<Longrightarrow>
   py_join sep ls \<noteq> [] \<and> last (py_join sep ls) = last (last ls)"
  by (induction sep ls rule: py_join.induct) auto

lemma py_join_hd: "x \<noteq> [] \<Longrightarrow> hd (py_join sep (x # ys)) = hd x"
  by (cases ys) auto

lemma clean_md_table:
  assumes hdr: "list_all plain_cell hdr"
    and rows: "list_all (list_all plain_cell) rows" "rows \<noteq> []"
    and seps: "list_all is_decorative seps"
    and hd_keep: "\<not> is_decorative (md_row hdr)"
  shows "clean_table_md (md_table hdr seps rows)
       = py_join [10] (map md_row (hdr # filter (\<lambda>r. \<not> is_decorative (md_row r)) rows))"
proof -
  define ls where "ls = md_row hdr # seps @ map md_row rows"
  have ne: "ls \<noteq> []" by (simp add: ls_def)
  have lst: "last ls = md_row (last rows)"
    using rows(2) by (simp add: ls_def last_map)
  then have lne: "last ls \<noteq> []" by (simp add: md_row_ends)
  have nb: "list_all (list_all (\<lambda>c. \<not> is_linebreak c)) ls"
    using hdr rows(1) seps md_row_no_break decorative_no_break
    by (auto simp: ls_def list_all_iff)
  have j: "py_join [10] ls \<noteq> []" "last (py_join [10] ls) = 124"
    using py_join_last[OF ne lne, of "[10]"] by (simp_all add: lst md_row_ends)
  have h: "hd (py_join [10] ls) = 124"
    by (simp add: ls_def py_join_hd md_row_ends)
  have "py_strip (py_join [10] ls) = py_join [10] ls"
    using j h pipe_not_space by (simp add: py_strip_id)
  moreover have "splitlines (py_join [10] ls) = ls"
    using splitlines_join[OF ne lne nb] by (simp add: splitlines_def)
  moreover have "clean_lines ls
      = map md_row (hdr # filter (\<lambda>r. \<not> is_decorative (md_row r)) rows)"
    using hd_keep seps by (auto simp: ls_def clean_lines_def filter_map comp_def list_all_iff)
  ultimately show ?thesis
    by (simp add: clean_table_md_def md_table_def ls_def[symmetric])
qed

lemma row_fields_length: "length (row_fields r) = length r + 2"
  by (simp add: row_fields_def)

lemma read_md_rows:
  assumes "list_all plain_cell hdr"
    and "list_all (\<lambda>r. length r = length hdr \<and> list_all plain_cell r) rows"
  shows "read_csv mg (py_join [10] (map md_row (hdr # rows)))
       = Inr \<lparr>df_columns = dedup_names mg (header_names (row_fields hdr)),
              df_rows = map (\<lambda>r. map Text (row_fields r)) rows\<rparr>"
proof -
  have pl: "list_all (list_all plain_cell) (hdr # rows)"
    using assms by (auto simp: list_all_iff)
  have tk: "tokenize (py_join [10] (map md_row (hdr # rows)))
      = Inr (row_fields hdr # map row_fields rows)"
    using tokenize_rows[OF pl] by simp
  have len: "\<forall>r\<in>set rows. length (row_fields r) = length (row_fields hdr)"
    using assms(2) by (auto simp: list_all_iff row_fields_length)
  have w: "(case map row_fields rows of [] \<Rightarrow> length (row_fields hdr)
            | r # _ \<Rightarrow> max (length (row_fields hdr)) (length r)) = length (row_fields hdr)"
    using len by (cases rows) auto
  have ok: "\<not> list_ex (\<lambda>r. length (row_fields hdr) < length r) (tl (map row_fields rows))"
    using len by (cases rows) (auto simp: list_ex_iff)
  have rws: "map (\<lambda>r. map Text (drop 0 (r @ replicate (length (row_fields hdr) - length r) [])))
               (map row_fields rows) = map (\<lambda>r. map Text (row_fields r)) rows"
    using len by simp
  show ?thesis
    unfolding read_csv_def tk using ok rws by (simp add: Let_def w)
qed

lemma names_kept:
  "list_all (\<lambda>t. t \<noteq> []) toks \<Longrightarrow>
   map (\<lambda>(i, name). if name = [] then u i else name) (enumerate n toks) = toks"
  by (induction toks arbitrary: n) auto

lemma header_names_row:
  assumes "list_all (\<lambda>t. t \<noteq> []) (map cell_token hdr)"
  shows "header_names (row_fields hdr)
       = (lit ''Unnamed: '' @ decimal 0) # map cell_token hdr
         @ [lit ''Unnamed: '' @ decimal (Suc (length hdr))]"
  using names_kept[OF assms, of "\<lambda>i. lit ''Unnamed: '' @ decimal i" "Suc 0"]
  by (simp add: header_names_def row_fields_def enumerate_append_eq)

lemma decimal_not_Nil: "decimal n \<noteq> []"
  by (simp add: decimal.simps[of n])

lemma decimal_zero: "decimal 0 = [48]"
  by (simp add: decimal.simps)

lemma decimal_Suc_not_zero: "decimal (Suc n) \<noteq> decimal 0"
proof -
  consider "Suc n < 10" | "\<not> Suc n < 10" by blast
  then show ?thesis
  proof cases
    case 1
    then show ?thesis by (simp add: decimal.simps[of "Suc n"] decimal_zero)
  next
    case 2
    then have "decimal (Suc n) = decimal (Suc n div 10) @ [48 + Suc n mod 10]"
      by (simp add: decimal.simps[of "Suc n"])
    moreover have "length (decimal (Suc n div 10)) \<noteq> 0"
      using decimal_not_Nil by simp
    ultimately have "length (decimal (Suc n)) \<noteq> 1" by simp
    then show ?thesis by (auto simp: decimal_zero)
  qed
qed

lemma unnamed_prefix: "prefix (lit ''Unnamed'') (lit ''Unnamed: '' @ d)"
  by (simp add: lit_def)

lemma header_names_distinct:
  assumes "distinct (map cell_token hdr)"
    and "list_all (\<lambda>h. \<not> prefix (lit ''Unnamed'') (cell_token h)) hdr"
  shows "distinct ((lit ''Unnamed: '' @ decimal 0) # map cell_token hdr
         @ [lit ''Unnamed: '' @ decimal (Suc (length hdr))])"
proof -
  have notin: "lit ''Unnamed: '' @ d \<notin> set (map cell_token hdr)" for d
  proof
    assume "lit ''Unnamed: '' @ d \<in> set (map cell_token hdr)"
    then obtain h where "h \<in> set hdr" "cell_token h = lit ''Unnamed: '' @ d" by auto
    then show False
      using assms(2) unnamed_prefix[of d] by (auto simp: list_all_iff)
  qed
  have "lit ''Unnamed: '' @ decimal 0 \<noteq> lit ''Unnamed: '' @ decimal (Suc (length hdr))"
    using decimal_Suc_not_zero[of "length hdr"] by simp
  then show ?thesis
    using assms(1) notin[of "decimal 0"] notin[of "decimal (Suc (length hdr))"]
    by simp
qed

lemma select_all: "length xs = n \<Longrightarrow> select (replicate n True) xs = xs"
  by (induction xs arbitrary: n) (auto simp: select_def)

lemma select_edges:
  assumes "length xs = n"
  shows "select (False # replicate n True @ [False]) (a # xs @ [b]) = xs"
proof -
  have "zip (replicate n True @ [False]) (xs @ [b]) = zip (replicate n True) xs @ [(False, b)]"
    using assms by simp
  then show ?thesis
    using select_all[OF assms] by (simp add: select_def)
qed

lemma space_is_space: "is_space 32"
  by (simp add: is_space_def)

lemma dropWhile_weaker:
  "(\<And>x. Q x \<Longrightarrow> P x) \<Longrightarrow> dropWhile P (dropWhile Q s) = dropWhile P s"
  by (induction s) auto

lemma py_strip_snoc_space: "is_space x \<Longrightarrow> py_strip (s @ [x]) = py_strip s"
proof -
  assume x: "is_space x"
  show ?thesis
  proof (cases "dropWhile is_space s")
    case Nil
    then have "list_all is_space s" by (simp only: dropWhile_Nil_list_all)
    then have "py_strip s = []" and "py_strip (s @ [x]) = []"
      using x by (simp_all add: py_strip_empty_iff)
    then show ?thesis by simp
  next
    case (Cons y ys)
    then have "\<exists>z\<in>set s. \<not> is_space z"
      by (metis dropWhile_eq_Nil_conv list.distinct(1))
    then obtain z where "z \<in> set s" "\<not> is_space z" by blast
    then have "dropWhile is_space (s @ [x]) = dropWhile is_space s @ [x]"
      by (rule dropWhile_append1)
    then show ?thesis using x by (simp add: py_strip_def)
  qed
qed

lemma py_strip_cell_token: "py_strip (cell_token c) = py_strip c"
proof -
  have "dropWhile is_space (cell_token c) = dropWhile is_space (c @ [32])"
    unfolding cell_token_def using space_is_space by (intro dropWhile_weaker) simp
  then have "py_strip (cell_token c) = py_strip (c @ [32])"
    by (simp add: py_strip_def)
  then show ?thesis
    using space_is_space by (simp add: py_strip_snoc_space)
qed

lemma py_strip_Nil: "py_strip [] = []"
  by (simp add: py_strip_def)

lemma strip_not_empty_token: "py_strip h \<noteq> [] \<Longrightarrow> cell_token h \<noteq> []"
  using py_strip_cell_token[of h] py_strip_Nil by auto

lemma apply_at_update: "j < length xs \<Longrightarrow> apply_at j f xs = xs[j := f (xs ! j)]"
  by (induction j f xs rule: apply_at.induct) auto

lemma find_first:
  "list_ex P xs \<Longrightarrow> find P xs = Some (xs ! length (takeWhile (\<lambda>x. \<not> P x) xs))"
  by (induction xs) auto

lemma distinct_count_one: "distinct xs \<Longrightarrow> x \<in> set xs \<Longrightarrow> count_list xs x = 1"
  by (induction xs) (auto simp: count_list_0_iff)

lemma normalize_plain_rows:
  assumes w: "list_ex (is_weight_name ul) cols" and d: "distinct cols"
    and len: "list_all (\<lambda>r. length r = length cols) rows"
  shows "normalize_weights ul \<lparr>df_columns = cols, df_rows = map (map (\<lambda>c. Text (cell_token c))) rows\<rparr>
       = Inr (Some \<lparr>df_columns = cols,
                    df_rows = map (read_row (weight_index ul cols))
                      (filter (\<lambda>r. weight_cell_value (r ! weight_index ul cols) \<noteq> NaN) rows)\<rparr>)"
proof -
  define j where "j = weight_index ul cols"
  have jlt: "j < length cols"
    unfolding j_def weight_index_def using w by (rule takeWhile_length_less)
  have f: "find (is_weight_name ul) cols = Some (cols ! j)"
    using find_first[OF w] by (simp add: j_def weight_index_def)
  have ne: "cols ! j \<noteq> []"
    using find_weight_not_empty[OF f] .
  have cnt: "count_list cols (cols ! j) = 1"
    using d jlt by (simp add: distinct_count_one)
  have row: "apply_at j coerce_cell (map (\<lambda>c. Text (cell_token c)) r) = read_row j r
      \<and> (weight_missing j (read_row j r) \<longleftrightarrow> weight_cell_value (r ! j) = NaN)"
    if "r \<in> set rows" for r
  proof -
    from that len jlt have lt: "j < length r" by (auto simp: list_all_iff)
    then show ?thesis
      by (simp add: apply_at_update read_row_def weight_cell_value_def)
  qed
  have "filter (\<lambda>row. \<not> weight_missing j row)
          (map (apply_at j coerce_cell) (map (map (\<lambda>c. Text (cell_token c))) rows))
      = map (read_row j) (filter (\<lambda>r. weight_cell_value (r ! j) \<noteq> NaN) rows)"
    using row by (induction rows) auto
  then show ?thesis
    using f ne cnt by (simp add: normalize_weights_def j_def[symmetric])
qed

lemma split_first_parts: "split_first sub s = Some (b, a) \<Longrightarrow> s = b @ sub @ a"
proof (induction s arbitrary: b)
  case Nil
  then show ?case by (simp split: if_splits)
next
  case (Cons c cs)
  show ?case
  proof (cases "prefix sub (c # cs)")
    case True
    then obtain zs where zs: "c # cs = sub @ zs" by (auto simp: prefix_def)
    from True Cons.prems have "b = []" "a = drop (length sub) (c # cs)" by auto
    then show ?thesis by (simp add: zs)
  next
    case False
    with Cons.prems obtain b' where "split_first sub cs = Some (b', a)" "b = c # b'"
      by (auto split: prod.splits)
    with Cons.IH[of b'] show ?thesis by simp
  qed
qed

lemma str_in_set: "str_in sub s \<Longrightarrow> set sub \<subseteq> set s"
proof -
  assume "str_in sub s"
  then obtain b a where "split_first sub s = Some (b, a)"
    by (auto simp: str_in_def)
  from split_first_parts[OF this] show ?thesis by auto
qed

lemma weight_name_letter:
  assumes "is_weight_name ul c"
  shows "\<exists>x\<in>set c. x \<noteq> 124 \<and> x \<noteq> 32 \<and> x \<noteq> 45"
proof (cases "list_all (\<lambda>x. x < 128) c")
  case True
  with assms have "str_in (lit ''weight'') (map ascii_lower c)
      \<or> str_in [48708, 51473] (map ascii_lower c) \<or> str_in (lit ''ratio'') (map ascii_lower c)"
    by (simp add: is_weight_name_def weight_keywords_def py_lower_def)
  then have "119 \<in> set (map ascii_lower c) \<or> 48708 \<in> set (map ascii_lower c)
      \<or> 114 \<in> set (map ascii_lower c)"
    using str_in_set[of "lit ''weight''" "map ascii_lower c"]
      str_in_set[of "[48708, 51473]" "map ascii_lower c"]
      str_in_set[of "lit ''ratio''" "map ascii_lower c"]
    by (auto simp: lit_def)
  then obtain x where "x \<in> set c" "ascii_lower x = 119 \<or> ascii_lower x = 48708 \<or> ascii_lower x = 114"
    by auto
  then show ?thesis
    by (intro bexI[of _ x]) (auto simp: ascii_lower_def split: if_splits)
next
  case False
  then obtain x where "x \<in> set c" "\<not> x < 128" by (auto simp: list_all_iff)
  then show ?thesis by (intro bexI[of _ x]) auto
qed

lemma set_py_strip: "set (py_strip s) \<subseteq> set s"
proof -
  have "set (py_strip s) \<subseteq> set (dropWhile is_space s)"
    using set_dropWhileD[of _ is_space "rev (dropWhile is_space s)"]
    by (auto simp: py_strip_def)
  then show ?thesis
    using set_dropWhileD[of _ is_space s] by auto
qed

lemma weight_header_kept:
  assumes "list_ex (is_weight_name ul) (map py_strip hdr)"
  shows "\<not> is_decorative (md_row hdr)"
proof -
  from assms obtain h where h: "h \<in> set hdr" "is_weight_name ul (py_strip h)"
    by (auto simp: list_ex_iff)
  from weight_name_letter[OF h(2)] obtain x where
    x: "x \<in> set (py_strip h)" "x \<noteq> 124 \<and> x \<noteq> 32 \<and> x \<noteq> 45" by blast
  with set_py_strip have "x \<in> set h" by blast
  with h(1) have "x \<in> set (md_row hdr)"
    unfolding set_md_row by auto
  with x(2) show ?thesis
    by (auto simp: is_decorative_iff)
qed

lemma take_sign_set: "take_sign s = (neg, r) \<Longrightarrow> set r \<subseteq> set s"
  by (cases s) (auto split: if_splits)

lemma takeWhile_none: "list_all (\<lambda>x. \<not> P x) xs \<Longrightarrow> takeWhile P xs = []"
  by (cases xs) auto

lemma dropWhile_none: "list_all (\<lambda>x. \<not> P x) xs \<Longrightarrow> dropWhile P xs = xs"
  by (cases xs) auto

lemma take_fraction_none:
  "list_all (\<lambda>x. \<not> is_digit x) xs \<Longrightarrow> fst (take_fraction xs) = []"
  by (cases xs) (auto simp: takeWhile_none list_all_iff)

lemma parse_decimal_no_digit:
  assumes "list_all (\<lambda>x. \<not> is_digit x) s"
  shows "parse_decimal s = None"
proof -
  obtain neg s2 where ts: "take_sign (dropWhile isspace_ascii s) = (neg, s2)"
    by (cases "take_sign (dropWhile isspace_ascii s)") auto
  have "set s2 \<subseteq> set s"
    using take_sign_set[OF ts] set_dropWhileD[of _ isspace_ascii s] by auto
  with assms have nd: "list_all (\<lambda>x. \<not> is_digit x) s2"
    by (auto simp: list_all_iff)
  obtain fp s4 where tf: "take_fraction (dropWhile is_digit s2) = (fp, s4)"
    by (cases "take_fraction (dropWhile is_digit s2)") auto
  have "fp = []"
    using take_fraction_none[of "dropWhile is_digit s2"] nd tf
    by (simp add: dropWhile_none)
  then show ?thesis
    using nd by (simp add: parse_decimal_def ts tf takeWhile_none)
qed

lemma to_numeric_no_digit:
  assumes "list_all (\<lambda>x. \<not> is_digit x \<and> x \<noteq> 105 \<and> x \<noteq> 73) s"
  shows "to_numeric s = NaN"
proof -
  have pd: "parse_decimal s = None"
    using assms by (intro parse_decimal_no_digit) (auto simp: list_all_iff)
  have "105 \<notin> set (map ascii_lower s)"
    using assms by (auto simp: list_all_iff ascii_lower_def split: if_splits)
  then have "map ascii_lower s \<noteq> t" if "105 \<in> set t" for t
    using that by auto
  then have "map ascii_lower s \<noteq> lit ''inf''" "map ascii_lower s \<noteq> lit ''+inf''"
    "map ascii_lower s \<noteq> lit ''infinity''" "map ascii_lower s \<noteq> lit ''+infinity''"
    "map ascii_lower s \<noteq> lit ''-inf''" "map ascii_lower s \<noteq> lit ''-infinity''"
    by (simp_all add: lit_def)
  then show ?thesis
    by (simp add: to_numeric_def pd Let_def)
qed

lemma set_cell_token: "set (cell_token c) \<subseteq> insert 32 (set c)"
  using set_dropWhileD[of _ "\<lambda>x. x = 32" "c @ [32]"] by (auto simp: cell_token_def)

lemma dash_cell_value:
  assumes "set c \<subseteq> {124, 32, 45}"
  shows "weight_cell_value c = NaN"
  unfolding weight_cell_value_def
proof (rule to_numeric_no_digit)
  have "set (replace_char 44 [] (replace_char 37 [] (cell_token c))) \<subseteq> {124, 32, 45}"
    using assms set_cell_token[of c] by (auto simp: replace_char_empty)
  then show "list_all (\<lambda>x. \<not> is_digit x \<and> x \<noteq> 105 \<and> x \<noteq> 73)
      (replace_char 44 [] (replace_char 37 [] (cell_token c)))"
    by (auto simp: list_all_iff is_digit_def)
qed

lemma decorative_row_value:
  assumes "is_decorative (md_row r)" "j < length r"
  shows "weight_cell_value (r ! j) = NaN"
proof (rule dash_cell_value)
  have "r ! j \<in> set r" using assms(2) by simp
  then have "set (r ! j) \<subseteq> set (md_row r)"
    unfolding set_md_row by blast
  then show "set (r ! j) \<subseteq> {124, 32, 45}"
    using assms(1) by (auto simp: is_decorative_iff)
qed

lemma digits_run:
  "list_all is_digit ds \<Longrightarrow> \<not> is_digit x \<Longrightarrow>
   takeWhile is_digit (ds @ x # xs) = ds \<and> dropWhile is_digit (ds @ x # xs) = x # xs"
  by (induction ds) auto

lemma percentage_value:
  assumes "clean_percentage c"
  shows "weight_cell_value c = Fin (of_nat (digits_value (butlast c)))"
proof -
  define ds where "ds = butlast c"
  from assms have c: "c = ds @ [37]" and ne: "ds \<noteq> []" and dg: "list_all is_digit ds"
    using append_butlast_last_id[of c] by (auto simp: clean_percentage_def ds_def)
  obtain d ds' where ds: "ds = d # ds'" using ne by (cases ds) auto
  with dg have d: "is_digit d" by simp
  then have d_ne: "d \<noteq> 32" "d \<noteq> 45" "d \<noteq> 43" "\<not> isspace_ascii d"
    by (auto simp: is_digit_def isspace_ascii_def)
  have nopc: "37 \<notin> set ds" "44 \<notin> set ds"
    using dg by (auto simp: list_all_iff is_digit_def)
  have tok: "cell_token c = ds @ [37, 32]"
    using d_ne by (simp add: cell_token_def c ds)
  have rep: "replace_char 44 [] (replace_char 37 [] (cell_token c)) = ds @ [32]"
    using nopc by (auto simp: tok replace_char_empty filter_id_conv)
  have run: "takeWhile is_digit (ds @ [32]) = ds" "dropWhile is_digit (ds @ [32]) = [32]"
    using digits_run[OF dg, of 32 "[]"] by (simp_all add: is_digit_def)
  have sg: "take_sign (dropWhile isspace_ascii (ds @ [32])) = (False, ds @ [32])"
    using d_ne by (simp add: ds)
  have "parse_decimal (ds @ [32]) = Some (of_nat (digits_value ds))"
    using ne by (simp add: parse_decimal_def sg run pow10_def isspace_ascii_def)
  then show ?thesis
    by (simp add: weight_cell_value_def rep to_numeric_def ds_def)
qed

lemma drop_unnamed_md:
  assumes tok: "list_all (\<lambda>h. cell_token h \<noteq> [] \<and> \<not> prefix (lit ''Unnamed'') (cell_token h)) hdr"
    and dist: "distinct (map cell_token hdr)"
    and len: "list_all (\<lambda>r. length r = length hdr) rows"
  shows "drop_unnamed \<lparr>df_columns = dedup_names mg (header_names (row_fields hdr)),
                       df_rows = map (\<lambda>r. map Text (row_fields r)) rows\<rparr>
       = \<lparr>df_columns = map py_strip hdr,
          df_rows = map (map (\<lambda>c. Text (cell_token c))) rows\<rparr>"
proof -
  have ne: "list_all (\<lambda>t. t \<noteq> []) (map cell_token hdr)"
    using tok by (auto simp: list_all_iff)
  have np: "list_all (\<lambda>h. \<not> prefix (lit ''Unnamed'') (cell_token h)) hdr"
    using tok by (auto simp: list_all_iff)
  define u0 where "u0 = lit ''Unnamed: '' @ decimal 0"
  define u1 where "u1 = lit ''Unnamed: '' @ decimal (Suc (length hdr))"
  have names: "dedup_names mg (header_names (row_fields hdr)) = u0 # map cell_token hdr @ [u1]"
    using header_names_distinct[OF dist np]
    by (simp add: dedup_names_def header_names_row[OF ne] u0_def u1_def)
  have keep: "map (\<lambda>c. \<not> prefix (lit ''Unnamed'') c) (u0 # map cell_token hdr @ [u1])
      = False # replicate (length hdr) True @ [False]"
    using np unnamed_prefix by (auto simp: u0_def u1_def list_all_iff map_replicate_const[symmetric])
  have cols: "select (False # replicate (length hdr) True @ [False]) (u0 # map cell_token hdr @ [u1])
      = map cell_token hdr"
    by (rule select_edges) simp
  have row: "select (False # replicate (length hdr) True @ [False]) (map Text (row_fields r))
      = map (\<lambda>c. Text (cell_token c)) r" if "r \<in> set rows" for r
  proof -
    from that len have "length (map (\<lambda>c. Text (cell_token c)) r) = length hdr"
      by (auto simp: list_all_iff)
    from select_edges[OF this, of "Text []" "Text []"] show ?thesis
      by (simp add: row_fields_def comp_def)
  qed
  have "drop_unnamed \<lparr>df_columns = dedup_names mg (header_names (row_fields hdr)),
                       df_rows = map (\<lambda>r. map Text (row_fields r)) rows\<rparr>
      = \<lparr>df_columns = map py_strip (map cell_token hdr),
         df_rows = map (select (False # replicate (length hdr) True @ [False]))
                     (map (\<lambda>r. map Text (row_fields r)) rows)\<rparr>"
    by (simp only: drop_unnamed_def Let_def dataframe.select_convs names keep cols)
  moreover have "map (select (False # replicate (length hdr) True @ [False]))
                     (map (\<lambda>r. map Text (row_fields r)) rows)
      = map (map (\<lambda>c. Text (cell_token c))) rows"
    using row by simp
  moreover have "map py_strip (map cell_token hdr) = map py_strip hdr"
    by (simp add: py_strip_cell_token)
  ultimately show ?thesis by simp
qed

lemma parse_md_table:
  assumes "well_formed_table ul hdr seps rows"
  shows "parse_portfolio_table ul mg (md_table hdr seps rows)
       = Inr (Some \<lparr>df_columns = map py_strip hdr,
                    df_rows = map (read_row (weight_index ul (map py_strip hdr)))
                      (filter (\<lambda>r. weight_cell_value (r ! weight_index ul (map py_strip hdr)) \<noteq> NaN)
                         rows)\<rparr>)"
proof -
  define j where "j = weight_index ul (map py_strip hdr)"
  define rows' where "rows' = filter (\<lambda>r. \<not> is_decorative (md_row r)) rows"
  from assms have hdr: "list_all plain_cell hdr"
    and rows: "list_all (\<lambda>r. length r = length hdr \<and> list_all plain_cell r) rows" "rows \<noteq> []"
    and seps: "list_all is_decorative seps"
    and dist: "distinct (map py_strip hdr)"
    and nm: "list_all (\<lambda>h. py_strip h \<noteq> [] \<and> \<not> prefix (lit ''Unnamed'') (cell_token h)) hdr"
    and w: "list_ex (is_weight_name ul) (map py_strip hdr)"
    by (simp_all add: well_formed_table_def)
  have rows_plain: "list_all (list_all plain_cell) rows"
    using rows(1) by (auto simp: list_all_iff)
  have rows'_ok: "list_all (\<lambda>r. length r = length hdr \<and> list_all plain_cell r) rows'"
    using rows(1) by (auto simp: rows'_def list_all_iff)
  have len': "list_all (\<lambda>r. length r = length hdr) rows'"
    using rows'_ok by (auto simp: list_all_iff)
  have clean: "clean_table_md (md_table hdr seps rows) = py_join [10] (map md_row (hdr # rows'))"
    unfolding rows'_def
    using clean_md_table[OF hdr rows_plain rows(2) seps weight_header_kept[OF w]] .
  have tok: "list_all (\<lambda>h. cell_token h \<noteq> [] \<and> \<not> prefix (lit ''Unnamed'') (cell_token h)) hdr"
    using nm strip_not_empty_token by (auto simp: list_all_iff)
  have "inj_on py_strip (set hdr)" "distinct hdr"
    using dist by (simp_all add: distinct_map)
  then have dtok: "distinct (map cell_token hdr)"
    using py_strip_cell_token by (auto simp: distinct_map inj_on_def) metis
  have jlt: "j < length hdr"
    using takeWhile_length_less[OF w] by (simp add: j_def weight_index_def)
  have dec: "weight_cell_value (r ! j) = NaN" if "r \<in> set rows" "is_decorative (md_row r)" for r
  proof -
    from that(1) rows(1) jlt have "j < length r" by (auto simp: list_all_iff)
    with that(2) show ?thesis by (rule decorative_row_value)
  qed
  have flt: "filter (\<lambda>r. weight_cell_value (r ! j) \<noteq> NaN) rows'
      = filter (\<lambda>r. weight_cell_value (r ! j) \<noteq> NaN) rows"
    unfolding rows'_def filter_filter
    by (rule filter_cong) (use dec in auto)
  have len'': "list_all (\<lambda>r. length r = length (map py_strip hdr)) rows'"
    using len' by simp
  have 1: "read_csv mg (clean_table_md (md_table hdr seps rows))
      = Inr \<lparr>df_columns = dedup_names mg (header_names (row_fields hdr)),
             df_rows = map (\<lambda>r. map Text (row_fields r)) rows'\<rparr>"
    unfolding clean by (rule read_md_rows[OF hdr rows'_ok])
  note 2 = drop_unnamed_md[OF tok dtok len', of mg]
  note 3 = normalize_plain_rows[OF w dist len'', folded j_def]
  show ?thesis
    unfolding parse_portfolio_table_def parse_body_def 1
    by (simp add: 2 3 flt j_def[symmetric])
qed

lemmas table_defs = well_formed_table_def plain_cell_def md_table_def md_row_def cell_token_def
  clean_percentage_def weight_cell_value_def read_row_def

lemma weight_column_read_rows:
  assumes "list_all (\<lambda>r. j < length r) rows"
  shows "map (\<lambda>row. row ! j) (map (read_row j) rows)
       = map (\<lambda>r. Number (weight_cell_value (r ! j))) rows"
  using assms by (induction rows) (auto simp: read_row_def)

lemma digits_value_from:
  "list_all is_digit ds \<Longrightarrow>
   foldl (\<lambda>a d. 10 * a + (d - 48)) a ds < (a + 1) * 10 ^ length ds"
proof (induction ds arbitrary: a)
  case Nil
  then show ?case by simp
next
  case (Cons d ds)
  from Cons.prems have "d \<le> 57" by (simp add: is_digit_def)
  then have "10 * a + (d - 48) + 1 \<le> (a + 1) * 10" by arith
  then have "(10 * a + (d - 48) + 1) * 10 ^ length ds \<le> ((a + 1) * 10) * 10 ^ length ds"
    by (rule mult_le_mono1)
  then have "(10 * a + (d - 48) + 1) * 10 ^ length ds \<le> (a + 1) * 10 ^ length (d # ds)"
    by (simp only: list.size power_Suc mult.assoc add_Suc_right add_0_right One_nat_def
        length_Cons)
  moreover have "foldl (\<lambda>a d. 10 * a + (d - 48)) (10 * a + (d - 48)) ds
      < (10 * a + (d - 48) + 1) * 10 ^ length ds"
    using Cons.IH[of "10 * a + (d - 48)"] Cons.prems by simp
  ultimately show ?case by simp
qed

lemma percentage_exact:
  assumes "clean_percentage c"
  shows "digits_value (butlast c) < 2 ^ 53"
proof -
  from assms have dg: "list_all is_digit (butlast c)" and len: "length (butlast c) \<le> 15"
    by (simp_all add: clean_percentage_def)
  have "digits_value (butlast c) < 10 ^ length (butlast c)"
    using digits_value_from[OF dg, of 0] by (simp add: digits_value_def)
  also have "(10::nat) ^ length (butlast c) \<le> 10 ^ 15"
    using len by (intro power_increasing) simp_all
  also have "(10::nat) ^ 15 < 2 ^ 53" by simp
  finally show ?thesis .
qed

text \<open>
  Claim C7, as amended. For a well-formed table with a header row, one separator row
  and at least one data row, in which every cell of the weight column is a clean
  percentage (one to fifteen digits and a percent sign), normalization returns a frame
  with as many rows as the table has data rows, and the weight column holds the numbers
  the digits denote (\<open>45%\<close> becomes 45). Each of these numbers is an integer below
  \<open>2\<^sup>5\<^sup>3\<close>, which \<open>float64\<close> holds exactly.
\<close>

theorem percentage_table:
  assumes "well_formed_table ul hdr [sep] rows"
    and "list_all (\<lambda>r. clean_percentage (r ! weight_index ul (map py_strip hdr))) rows"
  shows "(\<exists>df. parse_portfolio_table ul mg (md_table hdr [sep] rows) = Inr (Some df)
           \<and> length (df_rows df) = length rows
           \<and> weight_column ul df
               = map (\<lambda>r. Number (Fin (of_nat (digits_value
                       (butlast (r ! weight_index ul (map py_strip hdr))))))) rows)
       \<and> list_all (\<lambda>r. digits_value (butlast (r ! weight_index ul (map py_strip hdr))) < 2 ^ 53)
           rows"
proof -
  define j where "j = weight_index ul (map py_strip hdr)"
  have exact: "list_all (\<lambda>r. digits_value (butlast (r ! j)) < 2 ^ 53) rows"
    using assms(2) percentage_exact by (auto simp: list_all_iff j_def)
  have val: "weight_cell_value (r ! j) = Fin (of_nat (digits_value (butlast (r ! j))))"
    if "r \<in> set rows" for r
    using that assms(2) percentage_value by (auto simp: list_all_iff j_def)
  then have keep: "filter (\<lambda>r. weight_cell_value (r ! j) \<noteq> NaN) rows = rows"
    by (simp add: filter_id_conv)
  from assms(1) have "list_ex (is_weight_name ul) (map py_strip hdr)"
    and len: "list_all (\<lambda>r. length r = length hdr \<and> list_all plain_cell r) rows"
    by (simp_all add: well_formed_table_def)
  then have "j < length hdr"
    using takeWhile_length_less[of "is_weight_name ul" "map py_strip hdr"]
    by (simp add: j_def weight_index_def)
  with len have jlt: "list_all (\<lambda>r. j < length r) rows"
    by (auto simp: list_all_iff)
  have "weight_column ul \<lparr>df_columns = map py_strip hdr, df_rows = map (read_row j) rows\<rparr>
      = map (\<lambda>row. row ! j) (map (read_row j) rows)"
    by (simp add: weight_column_def j_def)
  also have "\<dots> = map (\<lambda>r. Number (weight_cell_value (r ! j))) rows"
    by (rule weight_column_read_rows[OF jlt])
  also have "\<dots> = map (\<lambda>r. Number (Fin (of_nat (digits_value (butlast (r ! j)))))) rows"
    using val by simp
  finally have "weight_column ul \<lparr>df_columns = map py_strip hdr, df_rows = map (read_row j) rows\<rparr>
      = map (\<lambda>r. Number (Fin (of_nat (digits_value (butlast (r ! j)))))) rows" .
  then show ?thesis
    using parse_md_table[OF assms(1), of mg] exact by (simp add: j_def[symmetric] keep)
qed

theorem percentage_table_witness:
  "well_formed_table (\<lambda>s. s) [lit ''Name'', lit ''Weight''] [lit ''|---|---|'']
      [[lit ''A'', lit ''45%''], [lit ''B'', lit ''55%'']]
   \<and> list_all (\<lambda>r. clean_percentage
          (r ! weight_index (\<lambda>s. s) (map py_strip [lit ''Name'', lit ''Weight''])))
        [[lit ''A'', lit ''45%''], [lit ''B'', lit ''55%'']]
   \<and> (\<exists>df. parse_portfolio_table (\<lambda>s. s) (\<lambda>names i. names ! i)
          (md_table [lit ''Name'', lit ''Weight''] [lit ''|---|---|'']
             [[lit ''A'', lit ''45%''], [lit ''B'', lit ''55%'']]) = Inr (Some df)
        \<and> length (df_rows df) = 2
        \<and> weight_column (\<lambda>s. s) df = [Number (Fin 45), Number (Fin 55)])"
proof -
  have h1: "well_formed_table (\<lambda>s. s) [lit ''Name'', lit ''Weight''] [lit ''|---|---|'']
      [[lit ''A'', lit ''45%''], [lit ''B'', lit ''55%'']]"
    by (simp add: table_defs eval_defs)
  have h2: "list_all (\<lambda>r. clean_percentage
          (r ! weight_index (\<lambda>s. s) (map py_strip [lit ''Name'', lit ''Weight''])))
        [[lit ''A'', lit ''45%''], [lit ''B'', lit ''55%'']]"
    by (simp add: table_defs eval_defs)
  have w: "weight_index (\<lambda>s. s) (map py_strip [lit ''Name'', lit ''Weight'']) = 1"
    by (simp add: eval_defs)
  show ?thesis
    using h1 h2 percentage_table[OF h1 h2, of "\<lambda>names i. names ! i", unfolded w]
    by (simp add: lit_def digits_value_def numeral_2_eq_2)
qed

text \<open>
  The claim as stated fails for a cell that opens with a double quote: the reader takes
  it as the start of a quoted field, finds no end of it and raises, so the result is
  \<open>None\<close>.
\<close>

theorem percentage_table_quote:
  "clean_percentage (lit ''45%'')
   \<and> md_table [lit ''Name'', lit ''Weight''] [lit ''|---|---|''] [[34 # lit ''A'', lit ''45%'']]
       = lit ''| Name | Weight |'' @ [10] @ lit ''|---|---|'' @ [10] @ [124, 32, 34]
         @ lit ''A | 45% |''
   \<and> parse_portfolio_table (\<lambda>s. s) (\<lambda>names i. names ! i)
       (md_table [lit ''Name'', lit ''Weight''] [lit ''|---|---|''] [[34 # lit ''A'', lit ''45%'']])
       = Inr None"
  by (simp add: table_defs eval_defs)




end
